theory Spec2Isabelle
  imports Complex_Main "HOL-Library.AList" "HOL-Library.Char_ord" "HOL-Library.List_Lexorder"
begin

section \<open>Strings and paths\<close>

text \<open>
  Python strings are modelled as \<open>string\<close>, one \<open>char\<close> per character: the
  strings over the code points below 256. On these \<open>str.lower\<close> adds 32 to the code
  of the upper-case letters, which are \<open>A\<close> to \<open>Z\<close> (65 to 90) and the accented
  capitals at 192 to 222 except the multiplication sign at 215, and leaves every other
  character alone.
\<close>

definition lower_char :: "char \<Rightarrow> char" where
  "lower_char c =
     (let n = (of_char c :: nat)
      in if (65 \<le> n \<and> n \<le> 90) \<or> (192 \<le> n \<and> n \<le> 214) \<or> (216 \<le> n \<and> n \<le> 222)
         then char_of (n + 32) else c)"

definition lower :: "string \<Rightarrow> string" where
  "lower s = map lower_char s"

text \<open>
  \<open>str.startswith\<close> with a one-character prefix, as \<open>e.startswith('.')\<close> uses it.
\<close>

definition startswith_dot :: "string \<Rightarrow> bool" where
  "startswith_dot e = (case e of [] \<Rightarrow> False | c # _ \<Rightarrow> c = CHR ''.'')"

text \<open>
  A \<open>pathlib.Path\<close> is the list of its components. \<open>p.name\<close> is the last one;
  \<open>p.suffix\<close> and \<open>p.stem\<close> cut the name at its last dot, unless that dot is the
  first or the last character of the name (\<open>name.rfind('.')\<close> with the test
  \<open>0 < i < len(name) - 1\<close>).
\<close>

type_synonym path = "string list"

definition name_of :: "path \<Rightarrow> string" where
  "name_of p = (case p of [] \<Rightarrow> [] | _ \<Rightarrow> last p)"

fun rfind_dot :: "string \<Rightarrow> nat option" where
  "rfind_dot [] = None"
| "rfind_dot (c # cs) =
     (case rfind_dot cs of
        Some i \<Rightarrow> Some (Suc i)
      | None \<Rightarrow> if c = CHR ''.'' then Some 0 else None)"

definition suffix_of_name :: "string \<Rightarrow> string" where
  "suffix_of_name nm =
     (case rfind_dot nm of
        None \<Rightarrow> []
      | Some i \<Rightarrow> if 0 < i \<and> i + 1 < length nm then drop i nm else [])"

definition stem_of_name :: "string \<Rightarrow> string" where
  "stem_of_name nm =
     (case rfind_dot nm of
        None \<Rightarrow> nm
      | Some i \<Rightarrow> if 0 < i \<and> i + 1 < length nm then take i nm else nm)"

definition suffix :: "path \<Rightarrow> string" where
  "suffix p = suffix_of_name (name_of p)"

definition stem :: "path \<Rightarrow> string" where
  "stem p = stem_of_name (name_of p)"

section \<open>Values, exceptions and the external probes\<close>

datatype exn =
  NameError | AttributeError | TypeError | ValueError | OSError | WaveError | ReError
| FileNotFoundError | NotADirectoryError | PermissionError | SyntaxError

text \<open>
  A Python float is kept symbolic: \<open>FloatOf x\<close> is \<open>float(audio.info.length)\<close> for a
  length \<open>x\<close>, and \<open>TrueDiv a b\<close> is the value of \<open>a / float(b)\<close>.
\<close>

datatype pyfloat = FloatOf real | TrueDiv int int

datatype pyval = PNone | PStr string | PInt nat | PFloat pyfloat

text \<open>
  What \<open>MutagenFile(str(path))\<close> gives back, as far as \<open>get_duration_seconds\<close>
  looks at it: the object's truth value, whether it has an \<open>info\<close> attribute, and
  whether \<open>info\<close> has a \<open>length\<close> that \<open>float\<close> accepts.
\<close>

datatype length_attr = NoLength | BadLength | Length real

datatype audio = Audio (truthy: bool) (info: "length_attr option")

text \<open>
  The facts of one regular file that the loop of \<open>main\<close> reads: \<open>p.stat().st_size\<close>,
  the outcome of the call \<open>MutagenFile(str(path))\<close> and the outcome of opening the file
  with \<open>wave.open\<close> and reading \<open>getnframes()\<close> and \<open>getframerate()\<close>. \<open>Inl\<close>
  is an exception. \<open>st_size\<close> is the outcome of the \<open>stat\<close> in the loop, which comes
  after the scan and can fail for a file the scan has seen (the file is removed or
  closed off in between). The module never binds the name \<open>MutagenFile\<close>, so as the
  file stands the call always gives \<open>Inl NameError\<close>; the model covers every outcome.
\<close>

record finfo =
  st_size :: "exn + nat"
  mutagen :: "exn + audio option"
  wave :: "exn + int \<times> int"

section \<open>The file system\<close>

text \<open>
  \<open>Denied\<close> is an entry that the process may not examine: its name is listed in
  its directory, and \<open>stat\<close> on it, or on anything below it, fails with \<open>EACCES\<close>.
\<close>

datatype node =
  Regular finfo
| Special
| Directory "(string \<times> node) list"
| Symlink "node option"
| Denied

text \<open>
  \<open>target\<close> follows symbolic links to what they point at (\<open>None\<close> for a dangling
  link). \<open>lookup\<close> walks the components of a path, following the links on the way,
  to the entry itself; it fails as the system call does: \<open>ENOENT\<close> for a missing
  name, \<open>ENOTDIR\<close> for a component that is no directory, \<open>EACCES\<close> below an entry
  that may not be examined. \<open>stat_path\<close> is \<open>Path.stat\<close>, which follows a link at
  the end as well.
\<close>

fun target :: "node \<Rightarrow> node option" where
  "target (Symlink None) = None"
| "target (Symlink (Some n)) = target n"
| "target n = Some n"

fun lookup :: "node \<Rightarrow> path \<Rightarrow> exn + node" where
  "lookup n [] = Inr n"
| "lookup n (c # cs) =
     (case target n of
        None \<Rightarrow> Inl FileNotFoundError
      | Some (Directory es) \<Rightarrow>
          (case map_of es c of Some ch \<Rightarrow> lookup ch cs | None \<Rightarrow> Inl FileNotFoundError)
      | Some Denied \<Rightarrow> Inl PermissionError
      | Some _ \<Rightarrow> Inl NotADirectoryError)"

definition stat_path :: "node \<Rightarrow> path \<Rightarrow> exn + node" where
  "stat_path fs p =
     (case lookup fs p of
        Inl e \<Rightarrow> Inl e
      | Inr n \<Rightarrow>
          (case target n of
             None \<Rightarrow> Inl FileNotFoundError
           | Some Denied \<Rightarrow> Inl PermissionError
           | Some m \<Rightarrow> Inr m))"

text \<open>
  \<open>Path.exists\<close>, \<open>Path.is_dir\<close> and \<open>Path.is_file\<close> call \<open>stat\<close>, answer
  \<open>False\<close> for the errors that say the path is not there (\<open>ENOENT\<close>, \<open>ENOTDIR\<close>)
  and raise every other one again.
\<close>

definition ignore_error :: "exn \<Rightarrow> bool" where
  "ignore_error e = (e = FileNotFoundError \<or> e = NotADirectoryError)"

definition exists_path :: "node \<Rightarrow> path \<Rightarrow> exn + bool" where
  "exists_path fs p =
     (case stat_path fs p of
        Inl e \<Rightarrow> if ignore_error e then Inr False else Inl e
      | Inr n \<Rightarrow> Inr True)"

definition is_dir :: "node \<Rightarrow> path \<Rightarrow> exn + bool" where
  "is_dir fs p =
     (case stat_path fs p of
        Inl e \<Rightarrow> if ignore_error e then Inr False else Inl e
      | Inr n \<Rightarrow> Inr (case n of Directory es \<Rightarrow> True | _ \<Rightarrow> False))"

definition is_file :: "node \<Rightarrow> path \<Rightarrow> exn + bool" where
  "is_file fs p =
     (case stat_path fs p of
        Inl e \<Rightarrow> if ignore_error e then Inr False else Inl e
      | Inr n \<Rightarrow> Inr (case n of Regular fi \<Rightarrow> True | _ \<Rightarrow> False))"

text \<open>\<open>Path.iterdir\<close> raises for a path that it cannot list.\<close>

definition iterdir :: "node \<Rightarrow> path \<Rightarrow> exn + path list" where
  "iterdir fs p =
     (case stat_path fs p of
        Inl e \<Rightarrow> Inl e
      | Inr (Directory es) \<Rightarrow> Inr (map (\<lambda>e. p @ [fst e]) es)
      | Inr n \<Rightarrow> Inl NotADirectoryError)"

text \<open>
  \<open>base.rglob("*")\<close> asks \<open>is_dir\<close> of the base and lists nothing for a base that
  is no directory. Otherwise it lists every entry below the directory, descending
  into the directories that are directories themselves: an entry that is a link to a
  directory, or that may not be examined, is listed and not entered.
\<close>

fun walk :: "path \<Rightarrow> node \<Rightarrow> path list" where
  "walk p (Directory es) =
     concat (map (\<lambda>e. (p @ [fst e]) # walk (p @ [fst e]) (snd e)) es)"
| "walk p _ = []"

definition rglob :: "node \<Rightarrow> path \<Rightarrow> exn + path list" where
  "rglob fs p =
     (case stat_path fs p of
        Inl e \<Rightarrow> if ignore_error e then Inr [] else Inl e
      | Inr (Directory es) \<Rightarrow> Inr (walk p (Directory es))
      | Inr n \<Rightarrow> Inr [])"

section \<open>\<open>scan_directory\<close>\<close>

definition normalize_ext :: "string \<Rightarrow> string" where
  "normalize_ext e = (if startswith_dot e then lower e else CHR ''.'' # lower e)"

text \<open>
  \<open>exts\<close> is \<open>None\<close> or a list; \<open>if exts\<close> is true for a non-empty list only.
\<close>

definition truthy_list :: "'a list option \<Rightarrow> bool" where
  "truthy_list xs = (case xs of None \<Rightarrow> False | Some l \<Rightarrow> l \<noteq> [])"

definition normalize_exts :: "string list option \<Rightarrow> string list option" where
  "normalize_exts exts =
     (if truthy_list exts then map_option (map normalize_ext) exts else exts)"

definition keeps :: "string list option \<Rightarrow> path \<Rightarrow> bool" where
  "keeps exts p =
     (case exts of
        None \<Rightarrow> True
      | Some l \<Rightarrow> if l \<noteq> [] then lower (suffix p) \<in> set l else True)"

text \<open>
  The loop \<open>for p in it\<close>: a raising \<open>p.is_file()\<close> ends it, since no \<open>try\<close>
  stands around it.
\<close>

fun select_files :: "node \<Rightarrow> string list option \<Rightarrow> path list \<Rightarrow> exn + path list" where
  "select_files fs exts [] = Inr []"
| "select_files fs exts (p # ps) =
     (case is_file fs p of
        Inl e \<Rightarrow> Inl e
      | Inr f \<Rightarrow>
          (case select_files fs exts ps of
             Inl e \<Rightarrow> Inl e
           | Inr files \<Rightarrow> Inr (if f \<and> keeps exts p then p # files else files)))"

definition scan_directory :: "node \<Rightarrow> path \<Rightarrow> string list option \<Rightarrow> bool \<Rightarrow> exn + path list" where
  "scan_directory fs base exts recursive =
     (let exts' = normalize_exts exts
      in case (if recursive then rglob fs base else iterdir fs base) of
           Inl e \<Rightarrow> Inl e
         | Inr it \<Rightarrow>
             (case select_files fs exts' it of
                Inl e \<Rightarrow> Inl e
              | Inr files \<Rightarrow> Inr (sort files)))"

section \<open>\<open>get_duration_seconds\<close>\<close>

text \<open>
  The first \<open>try\<close> block: \<open>Inr (Some d)\<close> is \<open>return d\<close>, \<open>Inr None\<close> is leaving
  the block without returning, \<open>Inl e\<close> is an exception raised inside it.
  \<open>audio.info\<close> is only read when \<open>audio\<close> is true.
\<close>

definition mutagen_try :: "exn + audio option \<Rightarrow> exn + pyfloat option" where
  "mutagen_try r =
     (case r of
        Inl e \<Rightarrow> Inl e
      | Inr None \<Rightarrow> Inr None
      | Inr (Some au) \<Rightarrow>
          if truthy au then
            (case info au of
               None \<Rightarrow> Inl AttributeError
             | Some NoLength \<Rightarrow> Inr None
             | Some BadLength \<Rightarrow> Inl TypeError
             | Some (Length x) \<Rightarrow> Inr (Some (FloatOf x)))
          else Inr None)"

definition wave_try :: "exn + int \<times> int \<Rightarrow> exn + pyfloat option" where
  "wave_try r =
     (case r of
        Inl e \<Rightarrow> Inl e
      | Inr (frames, framerate) \<Rightarrow>
          if framerate > 0 then Inr (Some (TrueDiv frames framerate)) else Inr None)"

text \<open>
  Both \<open>try\<close> blocks end in \<open>except Exception: pass\<close>, so an exception in a block
  continues after it. The result is \<open>Inr\<close> of the returned value (\<open>None\<close> for
  Python's \<open>None\<close>); \<open>Inl\<close> would be an exception leaving the function.
\<close>

definition get_duration_seconds :: "path \<Rightarrow> finfo \<Rightarrow> exn + pyfloat option" where
  "get_duration_seconds p fi =
     (case mutagen_try (mutagen fi) of
        Inr (Some d) \<Rightarrow> Inr (Some d)
      | _ \<Rightarrow>
          if lower (suffix p) \<in> set [''.wav''] then
            (case wave_try (wave fi) of
               Inr (Some d) \<Rightarrow> Inr (Some d)
             | _ \<Rightarrow> Inr None)
          else Inr None)"

section \<open>Rows, patterns and tokens\<close>

text \<open>
  A row is a Python \<open>dict\<close> from column names to values, kept as an association
  list in insertion order: \<open>row[k] = v\<close> is \<open>AList.update k v\<close>, which replaces the
  value of a key that is there and appends a new key at the end.
\<close>

type_synonym row = "(string \<times> pyval) list"

definition has_key :: "row \<Rightarrow> string \<Rightarrow> bool" where
  "has_key r k = (k \<in> set (map fst r))"

definition setdefault :: "string \<Rightarrow> pyval \<Rightarrow> row \<Rightarrow> row" where
  "setdefault k v r = (if has_key r k then r else AList.update k v r)"

text \<open>
  A compiled pattern, as far as the program uses it: \<open>regex.groupindex.keys()\<close>, the
  names of the named groups in the order of the pattern, and \<open>regex.match\<close>, which
  gives no match or a match object \<open>m\<close>, kept as the function from a group's name to
  what the group captured (\<open>None\<close> for a group that took no part in the match).
  \<open>m.groupdict()\<close> has the keys of \<open>groupindex\<close>.
\<close>

record pattern =
  groupindex :: "string list"
  rmatch :: "string \<Rightarrow> (string \<Rightarrow> string option) option"

definition of_capture :: "string option \<Rightarrow> pyval" where
  "of_capture c = (case c of None \<Rightarrow> PNone | Some s \<Rightarrow> PStr s)"

definition groupdict :: "pattern \<Rightarrow> (string \<Rightarrow> string option) \<Rightarrow> row" where
  "groupdict rx m = map (\<lambda>g. (g, of_capture (m g))) (groupindex rx)"

text \<open>
  \<open>str.split(sep)\<close> for a separator that is not empty cuts at each occurrence of
  \<open>sep\<close> found from the left, and raises \<open>ValueError\<close> for the empty separator.
\<close>

function split_from :: "string \<Rightarrow> string \<Rightarrow> string \<Rightarrow> string list" where
  "split_from sep acc [] = [acc]"
| "split_from sep acc (c # cs) =
     (if sep \<noteq> [] \<and> take (length sep) (c # cs) = sep
      then acc # split_from sep [] (drop (length sep) (c # cs))
      else split_from sep (acc @ [c]) cs)"
  by pat_completeness auto
termination
  by (relation "measure (\<lambda>(sep, acc, s). length s)") auto

definition split :: "string \<Rightarrow> string \<Rightarrow> exn + string list" where
  "split s sep = (if sep = [] then Inl ValueError else Inr (split_from sep [] s))"

text \<open>The decimal digits of a number, for \<open>f"token_{i}"\<close> and \<open>str(size)\<close>.\<close>

definition digit :: "nat \<Rightarrow> char" where
  "digit d = char_of (48 + d)"

function show_nat :: "nat \<Rightarrow> string" where
  "show_nat n = (if n < 10 then [digit n] else show_nat (n div 10) @ [digit (n mod 10)])"
  by pat_completeness auto
termination
  by (relation "measure id") auto

definition token_col :: "nat \<Rightarrow> string" where
  "token_col i = ''token_'' @ show_nat i"

text \<open>\<open>for i, t in enumerate(tokens, start=1): row[f"token_{i}"] = t\<close>\<close>

fun set_tokens :: "nat \<Rightarrow> string list \<Rightarrow> row \<Rightarrow> row" where
  "set_tokens i [] r = r"
| "set_tokens i (t # ts) r = set_tokens (Suc i) ts (AList.update (token_col i) (PStr t) r)"

section \<open>\<open>main\<close>\<close>

text \<open>
  \<open>args\<close> is what \<open>ap.parse_args()\<close> returns: the model of \<open>main\<close> starts at
  \<open>base = Path(args.input_dir)\<close> and takes the arguments as parsed, with the
  positional argument under \<open>input_dir\<close>, the attribute the body uses. What the
  source's declaration of that argument does to a run of the script is the subject of
  \<open>invoke\<close> below. Paths are given by their components.
\<close>

record args =
  input_dir :: path
  output_path :: path
  regex :: "string option"
  delimiter :: "string option"
  exts :: "string list option"
  no_recursive :: bool
  skip_duration :: bool

datatype write_outcome = OpenFails exn | WriteFails exn | WriteSucceeds

text \<open>
  The surroundings of a run: the file system under which \<open>input_dir\<close> is looked up,
  \<open>str(p.resolve())\<close>, \<open>re.compile\<close>, what opening and writing the output file
  does, the text \<open>csv\<close> writes for a float, and the exception, if any, that
  \<open>print\<close> raises on standard output.
\<close>

record world =
  filesystem :: node
  resolve_str :: "path \<Rightarrow> string"
  re_compile :: "string \<Rightarrow> exn + pattern"
  open_write :: "path \<Rightarrow> write_outcome"
  repr_float :: "pyfloat \<Rightarrow> string"
  stdout_error :: "exn option"

datatype message =
  BadInputDir | NoFileFound | CsvWritten string | WriteError exn | Traceback exn

datatype file_state = NotWritten | Partial | Complete "string list list"

text \<open>
  What a run leaves behind: the exit status of the process, the lines printed on
  standard output and on standard error, and the output file. An exception that
  nothing catches ends the process with status 1 and its traceback on standard
  error.
\<close>

record result =
  status :: nat
  stdout :: "message list"
  stderr :: "message list"
  written :: file_state

definition fatal :: "message \<Rightarrow> file_state \<Rightarrow> result" where
  "fatal m f = \<lparr>status = 1, stdout = [], stderr = [m], written = f\<rparr>"

definition facts :: "node \<Rightarrow> path \<Rightarrow> finfo" where
  "facts fs p =
     (case stat_path fs p of
        Inr (Regular fi) \<Rightarrow> fi
      | _ \<Rightarrow> \<lparr>st_size = Inl OSError, mutagen = Inl OSError, wave = Inl OSError\<rparr>)"

definition use_regex :: "args \<Rightarrow> bool" where
  "use_regex a = (case regex a of None \<Rightarrow> False | Some s \<Rightarrow> s \<noteq> [])"

definition use_split :: "args \<Rightarrow> bool" where
  "use_split a = (delimiter a \<noteq> None \<and> \<not> use_regex a)"

text \<open>\<open>regex = re.compile(args.regex) if args.regex else None\<close>\<close>

definition compile_regex :: "world \<Rightarrow> args \<Rightarrow> exn + pattern option" where
  "compile_regex w a =
     (case regex a of
        None \<Rightarrow> Inr None
      | Some s \<Rightarrow>
          if s \<noteq> [] then
            (case re_compile w s of Inl e \<Rightarrow> Inl e | Inr rx \<Rightarrow> Inr (Some rx))
          else Inr None)"

definition base_cols :: "string list" where
  "base_cols =
     [''filepath'', ''filename'', ''name'', ''ext'', ''size_bytes'', ''duration_seconds'']"

text \<open>
  The first half of the loop body: the six fixed entries of the row. A failing
  \<open>stat\<close> leaves \<open>size\<close> at \<open>None\<close>.
\<close>

definition base_row :: "world \<Rightarrow> args \<Rightarrow> path \<Rightarrow> exn + row" where
  "base_row w a p =
     (let fi = facts (filesystem w) p;
          size = (case st_size fi of Inl e \<Rightarrow> PNone | Inr n \<Rightarrow> PInt n)
      in case (if \<not> skip_duration a then get_duration_seconds p fi else Inr None) of
           Inl e \<Rightarrow> Inl e
         | Inr duration \<Rightarrow>
             Inr [(''filepath'', PStr (resolve_str w p)),
                  (''filename'', PStr (name_of p)),
                  (''name'', PStr (stem p)),
                  (''ext'', PStr (lower (suffix p))),
                  (''size_bytes'', size),
                  (''duration_seconds'',
                     (case duration of None \<Rightarrow> PNone | Some d \<Rightarrow> PFloat d))])"

text \<open>
  The second half: the fields taken from the stem. In the \<open>elif use_split\<close> branch
  \<open>use_regex\<close> is false, so the branch is taken exactly when a delimiter was given.
  The state of the loop is the row and \<open>max_tokens\<close>.
\<close>

definition add_fields :: "args \<Rightarrow> pattern option \<Rightarrow> path \<Rightarrow> row \<Rightarrow> nat \<Rightarrow> exn + row \<times> nat" where
  "add_fields a rx p r max_tokens =
     (if use_regex a then
        (case rx of
           None \<Rightarrow> Inl AttributeError
         | Some re \<Rightarrow>
             (case rmatch re (stem p) of
                Some m \<Rightarrow> Inr (fold (\<lambda>kv. AList.update (fst kv) (snd kv)) (groupdict re m) r, max_tokens)
              | None \<Rightarrow> Inr (fold (\<lambda>g. setdefault g PNone) (groupindex re) r, max_tokens)))
      else
        (case delimiter a of
           Some d \<Rightarrow>
             (case split (stem p) d of
                Inl e \<Rightarrow> Inl e
              | Inr tokens \<Rightarrow> Inr (set_tokens 1 tokens r, max max_tokens (length tokens)))
         | None \<Rightarrow> Inr (r, max_tokens)))"

text \<open>The body of \<open>for p in files\<close>, from the \<open>max_tokens\<close> before it to the row and the \<open>max_tokens\<close> after it.\<close>

definition file_row :: "world \<Rightarrow> args \<Rightarrow> pattern option \<Rightarrow> path \<Rightarrow> nat \<Rightarrow> exn + row \<times> nat" where
  "file_row w a rx p max_tokens =
     (case base_row w a p of
        Inl e \<Rightarrow> Inl e
      | Inr r \<Rightarrow> add_fields a rx p r max_tokens)"

fun build_rows :: "world \<Rightarrow> args \<Rightarrow> pattern option \<Rightarrow> path list \<Rightarrow> row list \<Rightarrow> nat \<Rightarrow> exn + row list \<times> nat" where
  "build_rows w a rx [] rows max_tokens = Inr (rows, max_tokens)"
| "build_rows w a rx (p # ps) rows max_tokens =
     (case file_row w a rx p max_tokens of
        Inl e \<Rightarrow> Inl e
      | Inr (r, max_tokens') \<Rightarrow> build_rows w a rx ps (rows @ [r]) max_tokens')"

definition token_cols :: "args \<Rightarrow> nat \<Rightarrow> string list" where
  "token_cols a max_tokens = (if use_split a then map token_col [1..<max_tokens + 1] else [])"

definition extra_cols :: "args \<Rightarrow> pattern option \<Rightarrow> string list" where
  "extra_cols a rx =
     (if use_regex a then (case rx of Some re \<Rightarrow> groupindex re | None \<Rightarrow> []) else [])"

definition fieldnames :: "args \<Rightarrow> pattern option \<Rightarrow> nat \<Rightarrow> string list" where
  "fieldnames a rx max_tokens = base_cols @ extra_cols a rx @ token_cols a max_tokens"

text \<open>\<open>for c in fieldnames: if c not in r: r[c] = None\<close>\<close>

definition ensure_keys :: "string list \<Rightarrow> row \<Rightarrow> row" where
  "ensure_keys cols r = fold (\<lambda>c r. if \<not> has_key r c then AList.update c PNone r else r) cols r"

text \<open>
  \<open>csv.DictWriter\<close>: \<open>writerow\<close> raises \<open>ValueError\<close> for a row with a key that is
  no field name, and otherwise writes, for each field name in order, the text of the
  row's value there (the empty text for \<open>None\<close>, and for a missing key the empty
  \<open>restval\<close>). \<open>writeheader\<close> writes the field names themselves. The table is kept
  as lines of fields: the quoting that the csv dialect adds to a field is not modelled.
\<close>

definition csv_field :: "world \<Rightarrow> pyval \<Rightarrow> string" where
  "csv_field w v =
     (case v of
        PNone \<Rightarrow> []
      | PStr s \<Rightarrow> s
      | PInt n \<Rightarrow> show_nat n
      | PFloat f \<Rightarrow> repr_float w f)"

text \<open>\<open>rowdict.get(key, self.restval)\<close>\<close>

definition cell :: "row \<Rightarrow> string \<Rightarrow> pyval" where
  "cell r c = (case map_of r c of Some v \<Rightarrow> v | None \<Rightarrow> PStr [])"

definition dict_to_list :: "string list \<Rightarrow> row \<Rightarrow> exn + pyval list" where
  "dict_to_list cols r =
     (if \<exists>k \<in> set (map fst r). k \<notin> set cols then Inl ValueError
      else Inr (map (cell r) cols))"

fun write_rows :: "world \<Rightarrow> string list \<Rightarrow> row list \<Rightarrow> exn + string list list" where
  "write_rows w cols [] = Inr []"
| "write_rows w cols (r # rs) =
     (case dict_to_list cols r of
        Inl e \<Rightarrow> Inl e
      | Inr vs \<Rightarrow>
          (case write_rows w cols rs of
             Inl e \<Rightarrow> Inl e
           | Inr ls \<Rightarrow> Inr (map (csv_field w) vs # ls)))"

text \<open>
  The \<open>try\<close> block around the writing: any exception in it is reported on standard
  error and ends the run with status 1; the file it may have begun stays. The
  \<open>print\<close> of the success message stands inside the block, after the file is
  closed: when it raises, the run ends the same way beside a complete file.
\<close>

definition write_csv :: "world \<Rightarrow> args \<Rightarrow> string list \<Rightarrow> row list \<Rightarrow> result" where
  "write_csv w a cols rows =
     (case open_write w (output_path a) of
        OpenFails e \<Rightarrow> fatal (WriteError e) NotWritten
      | WriteFails e \<Rightarrow> fatal (WriteError e) Partial
      | WriteSucceeds \<Rightarrow>
          (case write_rows w cols rows of
             Inl e \<Rightarrow> fatal (WriteError e) Partial
           | Inr ls \<Rightarrow>
               (case stdout_error w of
                  Some e \<Rightarrow> fatal (WriteError e) (Complete (cols # ls))
                | None \<Rightarrow>
                    \<lparr>status = 0,
                     stdout = [CsvWritten (resolve_str w (output_path a))],
                     stderr = [],
                     written = Complete (cols # ls)\<rparr>)))"

text \<open>
  \<open>not base.exists() or not base.is_dir()\<close>: \<open>is_dir\<close> is asked only of a base
  that exists, and either question may raise.
\<close>

definition bad_input_dir :: "node \<Rightarrow> path \<Rightarrow> exn + bool" where
  "bad_input_dir fs base =
     (case exists_path fs base of
        Inl e \<Rightarrow> Inl e
      | Inr ex \<Rightarrow>
          if \<not> ex then Inr True
          else (case is_dir fs base of Inl e \<Rightarrow> Inl e | Inr d \<Rightarrow> Inr (\<not> d)))"

text \<open>
  \<open>main\<close> up to the comment \<open># write CSV\<close>: the message of the run that stops
  before, or the field names and the rows handed to the writer. No \<open>try\<close> stands
  around the test of the directory, the scan, \<open>re.compile\<close> or the loop: an
  exception there ends the run with its traceback.
\<close>

definition gather :: "world \<Rightarrow> args \<Rightarrow> message + string list \<times> row list" where
  "gather w a =
     (let base = input_dir a in
      case bad_input_dir (filesystem w) base of
        Inl e \<Rightarrow> Inl (Traceback e)
      | Inr bad \<Rightarrow>
          if bad then Inl BadInputDir
          else
            (case scan_directory (filesystem w) base (exts a) (\<not> no_recursive a) of
               Inl e \<Rightarrow> Inl (Traceback e)
             | Inr files \<Rightarrow>
                 if files = [] then Inl NoFileFound
                 else
                   (case compile_regex w a of
                      Inl e \<Rightarrow> Inl (Traceback e)
                    | Inr rx \<Rightarrow>
                        (case build_rows w a rx files [] 0 of
                           Inl e \<Rightarrow> Inl (Traceback e)
                         | Inr (rows, max_tokens) \<Rightarrow>
                             let cols = fieldnames a rx max_tokens
                             in Inr (cols, map (ensure_keys cols) rows)))))"

definition main :: "world \<Rightarrow> args \<Rightarrow> result" where
  "main w a =
     (case gather w a of
        Inl m \<Rightarrow> fatal m NotWritten
      | Inr (cols, rows) \<Rightarrow> write_csv w a cols rows)"

section \<open>Running the script\<close>

text \<open>
  Python compiles the whole module before it runs a statement of it, and a module that
  does not compile ends the process with the traceback of a \<open>SyntaxError\<close> and
  status 1. The call that declares the positional argument reads, in the source,
  \<^verbatim>\<open>ap.add_argument("C:/Users/.../DeepMeows\dataset"", help="Dossier contenant les fichiers audio")\<close>
  Between its parentheses stand a string literal (the directory path), a second string
  literal that begins at the next quote and holds \<open>, help=\<close>, the five names
  \<open>Dossier\<close>, \<open>contenant\<close>, \<open>les\<close>, \<open>fichiers\<close> and \<open>audio\<close>, and a quote
  that opens a string literal which the line does not close.
\<close>

datatype token = STRING | NAME | COMMA | EQUAL | UNCLOSED

definition positional_argument :: "token list" where
  "positional_argument = [STRING, STRING, NAME, NAME, NAME, NAME, NAME, UNCLOSED]"

text \<open>
  The arguments of a call, as far as strings and names go: arguments separated by
  commas, each a run of adjacent string literals, a name, or a name with \<open>=\<close> and
  one of the two. The recognizer reads the tokens from the left; its state says what
  it has just read.
\<close>

datatype expecting = Argument | AfterString | AfterName | Value | AfterValue | Refused

fun next_state :: "expecting \<Rightarrow> token \<Rightarrow> expecting" where
  "next_state Argument STRING = AfterString"
| "next_state Argument NAME = AfterName"
| "next_state AfterString STRING = AfterString"
| "next_state AfterString COMMA = Argument"
| "next_state AfterName EQUAL = Value"
| "next_state AfterName COMMA = Argument"
| "next_state Value STRING = AfterString"
| "next_state Value NAME = AfterValue"
| "next_state AfterValue COMMA = Argument"
| "next_state s t = Refused"

definition call_arguments :: "token list \<Rightarrow> bool" where
  "call_arguments ts = (fold (\<lambda>t s. next_state s t) ts Argument \<in> {Argument, AfterString, AfterName, AfterValue})"

definition compiles :: bool where
  "compiles = call_arguments positional_argument"

text \<open>
  A run of the script with the arguments \<open>a\<close>: \<open>main\<close> is reached only when the
  module compiles.
\<close>

definition invoke :: "world \<Rightarrow> args \<Rightarrow> result" where
  "invoke w a = (if compiles then main w a else fatal (Traceback SyntaxError) NotWritten)"

section \<open>Notions of the specification\<close>

text \<open>
  The general probe (the call of \<open>MutagenFile\<close>) yields a usable length when it returns
  an object that is true and whose \<open>info\<close> has a \<open>length\<close> that converts to a float.
\<close>

definition usable_length :: "exn + audio option \<Rightarrow> real option" where
  "usable_length r =
     (case r of
        Inr (Some au) \<Rightarrow>
          (if truthy au then (case info au of Some (Length x) \<Rightarrow> Some x | _ \<Rightarrow> None) else None)
      | _ \<Rightarrow> None)"

text \<open>
  A filter entry with its leading dot: the entry itself when its first character is a
  dot, the entry behind a dot otherwise. A path passes a filter when no filter is given,
  when the filter is empty, or when its suffix equals, both in lower case, some entry
  of the filter with its leading dot.
\<close>

fun with_dot :: "string \<Rightarrow> string" where
  "with_dot [] = ''.''"
| "with_dot (c # cs) = (if c = CHR ''.'' then c # cs else CHR ''.'' # c # cs)"

fun passes :: "string list option \<Rightarrow> path \<Rightarrow> bool" where
  "passes None p = True"
| "passes (Some []) p = True"
| "passes (Some es) p = (\<exists>e \<in> set es. lower (suffix p) = lower (with_dot e))"

text \<open>
  \<open>reach n q\<close>: the components \<open>q\<close> lead from the node \<open>n\<close> to an entry through
  directories that are directories themselves, without following a link.
  \<open>below fs base recursive\<close> is the set a traversal of \<open>base\<close> is to list: the entries
  of the directory \<open>base\<close> resolves to, and in recursive mode every entry reached from
  it. A path is a regular file when \<open>stat\<close>, which follows links, finds one there; it
  can be examined when \<open>stat\<close> is not refused on it.
\<close>

fun reach :: "node \<Rightarrow> path \<Rightarrow> bool" where
  "reach n [] = True"
| "reach (Directory es) (c # cs) =
     (case map_of es c of Some ch \<Rightarrow> reach ch cs | None \<Rightarrow> False)"
| "reach n (c # cs) = False"


definition regular_file :: "node \<Rightarrow> path \<Rightarrow> bool" where
  "regular_file fs p = (case stat_path fs p of Inr (Regular fi) \<Rightarrow> True | _ \<Rightarrow> False)"

definition examinable :: "node \<Rightarrow> path \<Rightarrow> bool" where
  "examinable fs p = (stat_path fs p \<noteq> Inl PermissionError)"


text \<open>\<open>sep.join(tokens)\<close>, the inverse of \<open>str.split\<close>.\<close>

fun join :: "string \<Rightarrow> string list \<Rightarrow> string" where
  "join sep [] = []"
| "join sep [t] = t"
| "join sep (t # ts) = t @ sep @ join sep ts"

section \<open>An example world\<close>

text \<open>
  A directory \<open>audio\<close> with two regular files (one with an upper-case suffix), a
  link to a regular file, a sub-directory with one file and a special file, beside an
  empty directory and a directory \<open>closed\<close> whose one entry may not be examined.
  The file \<open>a_b_c.wav\<close> is a regular file for the scan; when the loop asks
  for its size the \<open>stat\<close> fails, and \<open>wave\<close> does not open it. Nor does
  \<open>wave\<close> open the compressed file. The link \<open>link.wav\<close>
  resolves to \<open>/store/take.wav\<close>. Two patterns compile in this world:
  \<open>(?P<sujet>[^_]+)_(?P<age>[0-9]+)\<close> and \<open>(?P<filename>[a-z]+)\<close>, with their
  matchers written out; the other texts used below, \<open>(\<close> among them, are rejected.
  The directory \<open>ro\<close> does not take an output file. Of the floats only
  \<open>88200 / float(44100)\<close> is written out, as \<open>2.0\<close>.
\<close>

definition plain :: finfo where
  "plain = \<lparr>st_size = Inr 1024, mutagen = Inl NameError, wave = Inr (88200, 44100)\<rparr>"

definition compressed :: finfo where
  "compressed = \<lparr>st_size = Inr 2048, mutagen = Inl NameError, wave = Inl WaveError\<rparr>"

definition unreadable :: finfo where
  "unreadable = \<lparr>st_size = Inl OSError, mutagen = Inl NameError, wave = Inl WaveError\<rparr>"

definition ex_fs :: node where
  "ex_fs = Directory
     [(''audio'', Directory
        [(''chat_12.WAV'', Regular plain),
         (''a_b_c.wav'', Regular unreadable),
         (''link.wav'', Symlink (Some (Regular plain))),
         (''sub'', Directory [(''007.mp3'', Regular compressed)]),
         (''pipe'', Special)]),
      (''empty'', Directory []),
      (''closed'', Directory [(''take.wav'', Denied)])]"

definition is_digit :: "char \<Rightarrow> bool" where
  "is_digit c = (48 \<le> (of_char c :: nat) \<and> (of_char c :: nat) \<le> 57)"

definition is_lower :: "char \<Rightarrow> bool" where
  "is_lower c = (97 \<le> (of_char c :: nat) \<and> (of_char c :: nat) \<le> 122)"

definition sujet_age :: pattern where
  "sujet_age = \<lparr>groupindex = [''sujet'', ''age''],
     rmatch = (\<lambda>s.
       let a = takeWhile (\<lambda>c. c \<noteq> CHR ''_'') s in
       (case dropWhile (\<lambda>c. c \<noteq> CHR ''_'') s of
          [] \<Rightarrow> None
        | u # t \<Rightarrow>
            let d = takeWhile is_digit t in
            if a \<noteq> [] \<and> d \<noteq> []
            then Some (\<lambda>g. if g = ''sujet'' then Some a else if g = ''age'' then Some d else None)
            else None))\<rparr>"

definition filename_rx :: pattern where
  "filename_rx = \<lparr>groupindex = [''filename''],
     rmatch = (\<lambda>s.
       let a = takeWhile is_lower s in
       if a \<noteq> [] then Some (\<lambda>g. if g = ''filename'' then Some a else None) else None)\<rparr>"

definition ex_compile :: "string \<Rightarrow> exn + pattern" where
  "ex_compile s =
     (if s = ''(?P<sujet>[^_]+)_(?P<age>[0-9]+)'' then Inr sujet_age
      else if s = ''(?P<filename>[a-z]+)'' then Inr filename_rx
      else Inl ReError)"

definition ex_world :: world where
  "ex_world = \<lparr>filesystem = ex_fs,
     resolve_str = (\<lambda>p. if p = [''audio'', ''link.wav''] then ''/store/take.wav''
                          else concat (map (\<lambda>c. CHR ''/'' # c) p)),
     re_compile = ex_compile,
     open_write = (\<lambda>p. if p = [''ro'', ''out.csv''] then OpenFails OSError else WriteSucceeds),
     repr_float = (\<lambda>f. case f of
                     FloatOf x \<Rightarrow> ''?''
                   | TrueDiv a b \<Rightarrow> if a = 88200 \<and> b = 44100 then ''2.0'' else ''?''),
     stdout_error = None\<rparr>"

definition ex_args :: args where
  "ex_args = \<lparr>input_dir = [''audio''], output_path = [''metadata.csv''], regex = None,
     delimiter = None, exts = None, no_recursive = False, skip_duration = False\<rparr>"


text \<open>
  Runs in this world: with the delimiter \<open>_\<close>, with the first pattern beside the
  delimiter, and with the second pattern, whose group has the name of a fixed column.
  \<open>ex_files\<close> is what the recursive scan of \<open>audio\<close> returns, and the rows are what
  \<open>main\<close> hands to the writer in each run.
\<close>

definition ex_args_tokens :: args where
  "ex_args_tokens = ex_args\<lparr>delimiter := Some ''_''\<rparr>"

definition ex_args_regex :: args where
  "ex_args_regex =
     ex_args\<lparr>regex := Some ''(?P<sujet>[^_]+)_(?P<age>[0-9]+)'', delimiter := Some ''_''\<rparr>"

definition ex_args_collide :: args where
  "ex_args_collide = ex_args\<lparr>regex := Some ''(?P<filename>[a-z]+)''\<rparr>"

definition ex_files :: "path list" where
  "ex_files =
     [[''audio'', ''a_b_c.wav''], [''audio'', ''chat_12.WAV''], [''audio'', ''link.wav''],
      [''audio'', ''sub'', ''007.mp3'']]"

definition ex_rows :: "row list" where
  "ex_rows =
     [[(''filepath'', PStr ''/audio/a_b_c.wav''), (''filename'', PStr ''a_b_c.wav''),
       (''name'', PStr ''a_b_c''), (''ext'', PStr ''.wav''), (''size_bytes'', PNone),
       (''duration_seconds'', PNone)],
      [(''filepath'', PStr ''/audio/chat_12.WAV''), (''filename'', PStr ''chat_12.WAV''),
       (''name'', PStr ''chat_12''), (''ext'', PStr ''.wav''), (''size_bytes'', PInt 1024),
       (''duration_seconds'', PFloat (TrueDiv 88200 44100))],
      [(''filepath'', PStr ''/store/take.wav''), (''filename'', PStr ''link.wav''),
       (''name'', PStr ''link''), (''ext'', PStr ''.wav''), (''size_bytes'', PInt 1024),
       (''duration_seconds'', PFloat (TrueDiv 88200 44100))],
      [(''filepath'', PStr ''/audio/sub/007.mp3''), (''filename'', PStr ''007.mp3''),
       (''name'', PStr ''007''), (''ext'', PStr ''.mp3''), (''size_bytes'', PInt 2048),
       (''duration_seconds'', PNone)]]"

definition ex_rows_tokens :: "row list" where
  "ex_rows_tokens =
     [ex_rows ! 0 @ [(''token_1'', PStr ''a''), (''token_2'', PStr ''b''), (''token_3'', PStr ''c'')],
      ex_rows ! 1 @ [(''token_1'', PStr ''chat''), (''token_2'', PStr ''12''), (''token_3'', PNone)],
      ex_rows ! 2 @ [(''token_1'', PStr ''link''), (''token_2'', PNone), (''token_3'', PNone)],
      ex_rows ! 3 @ [(''token_1'', PStr ''007''), (''token_2'', PNone), (''token_3'', PNone)]]"

definition ex_rows_regex :: "row list" where
  "ex_rows_regex =
     [ex_rows ! 0 @ [(''sujet'', PNone), (''age'', PNone)],
      ex_rows ! 1 @ [(''sujet'', PStr ''chat''), (''age'', PStr ''12'')],
      ex_rows ! 2 @ [(''sujet'', PNone), (''age'', PNone)],
      ex_rows ! 3 @ [(''sujet'', PNone), (''age'', PNone)]]"

definition ex_rows_collide :: "row list" where
  "ex_rows_collide =
     [AList.update ''filename'' (PStr ''a'') (ex_rows ! 0),
      AList.update ''filename'' (PStr ''chat'') (ex_rows ! 1),
      AList.update ''filename'' (PStr ''link'') (ex_rows ! 2),
      ex_rows ! 3]"

section \<open>Rows and columns\<close>

lemma lower_char_dot: "lower_char CHR ''.'' = CHR ''.''"
  by (simp add: lower_char_def)

lemma get_duration_seconds_Inr: "\<exists>d. get_duration_seconds p fi = Inr d"
  by (auto simp: get_duration_seconds_def split: sum.splits option.splits)

lemma base_row_Inr:
  "\<exists>sz du. base_row w a p =
     Inr [(''filepath'', PStr (resolve_str w p)),
          (''filename'', PStr (name_of p)),
          (''name'', PStr (stem p)),
          (''ext'', PStr (lower (suffix p))),
          (''size_bytes'', sz),
          (''duration_seconds'', du)]"
proof (cases "skip_duration a")
  case True
  then show ?thesis by (simp add: base_row_def Let_def)
next
  case False
  obtain d where "get_duration_seconds p (facts (filesystem w) p) = Inr d"
    using get_duration_seconds_Inr by blast
  with False show ?thesis by (simp add: base_row_def Let_def)
qed

lemma base_row_keys: "base_row w a p = Inr r \<Longrightarrow> map fst r = base_cols"
  using base_row_Inr [of w a p] by (auto simp: base_cols_def)

lemma compile_regex_none: "\<not> use_regex a \<Longrightarrow> compile_regex w a = Inr None"
  by (auto simp: use_regex_def compile_regex_def split: option.splits)

lemma compile_regex_some:
  "compile_regex w a = Inr (Some re) \<Longrightarrow> use_regex a"
  by (auto simp: use_regex_def compile_regex_def split: option.splits if_splits sum.splits)

lemma has_key_map_of: "has_key r k \<longleftrightarrow> map_of r k \<noteq> None"
  by (simp add: has_key_def map_of_eq_None_iff)

lemma map_of_setdefault:
  "map_of (setdefault k v r) k' =
     (case map_of r k' of Some x \<Rightarrow> Some x | None \<Rightarrow> if k' = k then Some v else None)"
  by (auto simp: setdefault_def has_key_map_of update_conv' split: option.splits)

lemma map_of_fold_setdefault:
  "map_of (fold (\<lambda>g. setdefault g v) gs r) k =
     (case map_of r k of Some x \<Rightarrow> Some x | None \<Rightarrow> if k \<in> set gs then Some v else None)"
  by (induction gs arbitrary: r) (auto simp: map_of_setdefault split: option.splits)

lemma ensure_keys_setdefault: "ensure_keys cols r = fold (\<lambda>c. setdefault c PNone) cols r"
proof -
  have "(\<lambda>c r. if \<not> has_key r c then AList.update c PNone r else r) = (\<lambda>c. setdefault c PNone)"
    by (intro ext) (simp add: setdefault_def)
  then show ?thesis by (simp add: ensure_keys_def)
qed

lemma map_of_ensure_keys:
  "map_of (ensure_keys cols r) k =
     (case map_of r k of Some x \<Rightarrow> Some x | None \<Rightarrow> if k \<in> set cols then Some PNone else None)"
  by (simp add: ensure_keys_setdefault map_of_fold_setdefault)

lemma keys_conv_dom: "set (map fst r) = dom (map_of r)"
  by (simp add: dom_map_of_conv_image_fst)

lemma keys_ensure_keys: "set (map fst (ensure_keys cols r)) = set (map fst r) \<union> set cols"
  unfolding keys_conv_dom
  by (auto simp: map_of_ensure_keys dom_def split: option.splits)

lemma map_of_fold_update:
  "map_of (fold (\<lambda>kv. AList.update (fst kv) (snd kv)) (map (\<lambda>g. (g, f g)) gs) r) k =
     (if k \<in> set gs then Some (f k) else map_of r k)"
  by (induction gs arbitrary: r) (auto simp: update_conv')

lemma keys_fold_update:
  "set (map fst (fold (\<lambda>kv. AList.update (fst kv) (snd kv)) (map (\<lambda>g. (g, f g)) gs) r)) =
     set (map fst r) \<union> set gs"
  unfolding keys_conv_dom
  by (auto simp: map_of_fold_update dom_def split: if_splits)

lemma keys_fold_setdefault:
  "set (map fst (fold (\<lambda>g. setdefault g v) gs r)) = set (map fst r) \<union> set gs"
  unfolding keys_conv_dom
  by (auto simp: map_of_fold_setdefault dom_def split: option.splits if_splits)

section \<open>Token columns\<close>

lemma of_char_digit: "d < 10 \<Longrightarrow> (of_char (digit d) :: nat) = 48 + d"
proof -
  assume d: "d < 10"
  have "(of_char (char_of (48 + d)) :: nat) = (48 + d) mod 256"
    by (rule of_char_of)
  also have "\<dots> = 48 + d" using d by (intro mod_less) linarith
  finally show ?thesis by (simp only: digit_def)
qed

lemma digit_inj: "a < 10 \<Longrightarrow> b < 10 \<Longrightarrow> digit a = digit b \<Longrightarrow> a = b"
proof -
  assume a: "a < 10" and b: "b < 10" and e: "digit a = digit b"
  have "(48 + a :: nat) = of_char (digit a)" using a by (simp only: of_char_digit)
  also have "\<dots> = of_char (digit b)" using e by (simp only:)
  also have "\<dots> = 48 + b" using b by (simp only: of_char_digit)
  finally show ?thesis by linarith
qed

lemma show_nat_nonempty: "show_nat n \<noteq> []"
  by (subst show_nat.simps) simp

lemma show_nat_length_ge2: "10 \<le> n \<Longrightarrow> 2 \<le> length (show_nat n)"
proof -
  assume "10 \<le> n"
  then have "show_nat n = show_nat (n div 10) @ [digit (n mod 10)]"
    by (subst show_nat.simps) simp
  moreover have "1 \<le> length (show_nat (n div 10))"
    using show_nat_nonempty [of "n div 10"] by (cases "show_nat (n div 10)") auto
  ultimately show ?thesis by simp
qed

lemma show_nat_small: "n < 10 \<Longrightarrow> show_nat n = [digit n]"
  by (subst show_nat.simps) simp

lemma show_nat_big: "10 \<le> n \<Longrightarrow> show_nat n = show_nat (n div 10) @ [digit (n mod 10)]"
  by (subst show_nat.simps) simp

lemma show_nat_inj: "show_nat n = show_nat m \<Longrightarrow> n = m"
proof (induction n arbitrary: m rule: less_induct)
  case (less n)
  show ?case
  proof (cases "n < 10")
    case n_small: True
    show ?thesis
    proof (cases "m < 10")
      case True
      with n_small less.prems show ?thesis
        by (simp add: show_nat_small digit_inj)
    next
      case False
      then have "2 \<le> length (show_nat m)" by (simp add: show_nat_length_ge2)
      moreover have "length (show_nat n) = 1" using n_small by (simp add: show_nat_small)
      ultimately show ?thesis using less.prems by simp
    qed
  next
    case n_big: False
    show ?thesis
    proof (cases "m < 10")
      case True
      then have "length (show_nat m) = 1" by (simp add: show_nat_small)
      moreover have "2 \<le> length (show_nat n)" using n_big by (simp add: show_nat_length_ge2)
      ultimately show ?thesis using less.prems by simp
    next
      case False
      with n_big less.prems
      have e: "show_nat (n div 10) @ [digit (n mod 10)] = show_nat (m div 10) @ [digit (m mod 10)]"
        by (simp add: show_nat_big)
      then have "show_nat (n div 10) = show_nat (m div 10)" and d: "digit (n mod 10) = digit (m mod 10)"
        by simp_all
      moreover have "n div 10 < n" using n_big by simp
      ultimately have q: "n div 10 = m div 10" using less.IH by blast
      have "n mod 10 = m mod 10" using d by (intro digit_inj) simp_all
      with q show ?thesis by (metis div_mult_mod_eq)
    qed
  qed
qed

lemma token_col_inj: "token_col i = token_col j \<Longrightarrow> i = j"
  by (simp add: token_col_def show_nat_inj)

lemma token_col_not_base: "token_col i \<notin> set base_cols"
  by (simp add: token_col_def base_cols_def)

lemma map_of_set_tokens_miss:
  "(\<And>n. n < length ts \<Longrightarrow> k \<noteq> token_col (i + n)) \<Longrightarrow> map_of (set_tokens i ts r) k = map_of r k"
proof (induction ts arbitrary: i r)
  case Nil
  then show ?case by simp
next
  case (Cons t ts)
  have "map_of (set_tokens (Suc i) ts (AList.update (token_col i) (PStr t) r)) k =
        map_of (AList.update (token_col i) (PStr t) r) k"
  proof (rule Cons.IH)
    fix n assume "n < length ts"
    then show "k \<noteq> token_col (Suc i + n)" using Cons.prems [of "Suc n"] by simp
  qed
  moreover have "k \<noteq> token_col i" using Cons.prems [of 0] by simp
  ultimately show ?case by (simp add: update_conv')
qed

lemma map_of_set_tokens_hit:
  "n < length ts \<Longrightarrow> map_of (set_tokens i ts r) (token_col (i + n)) = Some (PStr (ts ! n))"
proof (induction ts arbitrary: i r n)
  case Nil
  then show ?case by simp
next
  case (Cons t ts)
  show ?case
  proof (cases n)
    case 0
    have "map_of (set_tokens (Suc i) ts (AList.update (token_col i) (PStr t) r)) (token_col i) =
          map_of (AList.update (token_col i) (PStr t) r) (token_col i)"
      by (rule map_of_set_tokens_miss) (auto dest: token_col_inj)
    with 0 show ?thesis by (simp add: update_conv')
  next
    case (Suc n')
    with Cons.prems have "n' < length ts" by simp
    from Cons.IH [OF this, of "Suc i"] Suc show ?thesis by simp
  qed
qed

lemma keys_set_tokens:
  "set (map fst (set_tokens i ts r)) = set (map fst r) \<union> token_col ` {i..<i + length ts}"
proof (induction ts arbitrary: i r)
  case Nil
  then show ?case by simp
next
  case (Cons t ts)
  have "{i..<i + length (t # ts)} = insert i {Suc i..<Suc i + length ts}" by auto
  with Cons.IH [of "Suc i"] show ?case
    by (simp add: AList.dom_update)
qed

section \<open>The loop over the files\<close>


lemma file_row_unshift:
  "file_row w a rx p K = Inr (r, K') \<Longrightarrow> \<exists>n. file_row w a rx p 0 = Inr (r, n) \<and> K' = max K n"
  by (auto simp: file_row_def add_fields_def split: sum.splits option.splits if_splits)


lemma build_rows_result:
  "build_rows w a rx ps rows K = Inr (rows', K') \<Longrightarrow>
   \<exists>new. rows' = rows @ new \<and> length new = length ps \<and> K \<le> K' \<and>
     (\<forall>i<length ps. \<exists>n. file_row w a rx (ps ! i) 0 = Inr (new ! i, n) \<and> n \<le> K') \<and>
     (K' = K \<or> (\<exists>i<length ps. \<exists>r. file_row w a rx (ps ! i) 0 = Inr (r, K')))"
proof (induction ps arbitrary: rows K)
  case Nil
  then show ?case by simp
next
  case (Cons p ps)
  from Cons.prems obtain r K1 where
    fr: "file_row w a rx p K = Inr (r, K1)" and
    rest: "build_rows w a rx ps (rows @ [r]) K1 = Inr (rows', K')"
    by (auto split: sum.splits)
  from file_row_unshift [OF fr] obtain n where
    n: "file_row w a rx p 0 = Inr (r, n)" and K1: "K1 = max K n" by blast
  from Cons.IH [OF rest] obtain new where
    new: "rows' = (rows @ [r]) @ new" "length new = length ps" "K1 \<le> K'"
      "\<forall>i<length ps. \<exists>n. file_row w a rx (ps ! i) 0 = Inr (new ! i, n) \<and> n \<le> K'"
      "K' = K1 \<or> (\<exists>i<length ps. \<exists>r. file_row w a rx (ps ! i) 0 = Inr (r, K'))"
    by blast
  have each: "\<forall>i<length (p # ps). \<exists>m. file_row w a rx ((p # ps) ! i) 0 = Inr ((r # new) ! i, m) \<and> m \<le> K'"
  proof (intro allI impI)
    fix i assume i: "i < length (p # ps)"
    show "\<exists>m. file_row w a rx ((p # ps) ! i) 0 = Inr ((r # new) ! i, m) \<and> m \<le> K'"
    proof (cases i)
      case 0
      with n K1 new(3) show ?thesis by auto
    next
      case (Suc j)
      with i new(4) show ?thesis by simp
    qed
  qed
  have last: "K' = K \<or> (\<exists>i<length (p # ps). \<exists>r. file_row w a rx ((p # ps) ! i) 0 = Inr (r, K'))"
  proof (cases "K' = K1")
    case True
    show ?thesis
    proof (cases "n \<le> K")
      case True
      with \<open>K' = K1\<close> K1 show ?thesis by simp
    next
      case False
      with \<open>K' = K1\<close> K1 have "K' = n" by simp
      with n have "file_row w a rx ((p # ps) ! 0) 0 = Inr (r, K')" by simp
      then show ?thesis by blast
    qed
  next
    case False
    with new(5) obtain i r' where "i < length ps" "file_row w a rx (ps ! i) 0 = Inr (r', K')"
      by blast
    then have "Suc i < length (p # ps) \<and> file_row w a rx ((p # ps) ! Suc i) 0 = Inr (r', K')"
      by simp
    then show ?thesis by blast
  qed
  have "rows' = rows @ (r # new)" using new(1) by simp
  moreover have "length (r # new) = length (p # ps)" using new(2) by simp
  moreover have "K \<le> K'" using K1 new(3) by simp
  ultimately show ?case using each last by blast
qed


lemma file_row_regex_mode:
  assumes "use_regex a"
  shows "\<exists>r0. base_row w a p = Inr r0 \<and>
     file_row w a (Some re) p 0 =
       Inr ((case rmatch re (stem p) of
               Some m \<Rightarrow> fold (\<lambda>kv. AList.update (fst kv) (snd kv)) (groupdict re m) r0
             | None \<Rightarrow> fold (\<lambda>g. setdefault g PNone) (groupindex re) r0), 0)"
proof -
  obtain r0 where "base_row w a p = Inr r0" using base_row_Inr [of w a p] by blast
  with assms show ?thesis
    by (auto simp: file_row_def add_fields_def split: option.splits)
qed

lemma file_row_split_mode:
  assumes "\<not> use_regex a" and "delimiter a = Some d" and "d \<noteq> []"
  shows "\<exists>r0. base_row w a p = Inr r0 \<and>
     file_row w a rx p 0 =
       Inr (set_tokens 1 (split_from d [] (stem p)) r0, length (split_from d [] (stem p)))"
proof -
  obtain r0 where "base_row w a p = Inr r0" using base_row_Inr [of w a p] by blast
  with assms show ?thesis
    by (auto simp: file_row_def add_fields_def split_def)
qed

lemma file_row_split_empty:
  assumes "\<not> use_regex a" and "delimiter a = Some []"
  shows "file_row w a rx p K = Inl ValueError"
proof -
  obtain r0 where "base_row w a p = Inr r0" using base_row_Inr [of w a p] by blast
  with assms show ?thesis
    by (auto simp: file_row_def add_fields_def split_def)
qed

lemma file_row_plain_mode:
  assumes "\<not> use_regex a" and "delimiter a = None"
  shows "\<exists>r0. base_row w a p = Inr r0 \<and> file_row w a rx p 0 = Inr (r0, 0)"
proof -
  obtain r0 where "base_row w a p = Inr r0" using base_row_Inr [of w a p] by blast
  with assms show ?thesis
    by (auto simp: file_row_def add_fields_def)
qed


lemma set_groupdict_keys: "map fst (groupdict re m) = groupindex re"
  by (simp add: groupdict_def comp_def)

lemma file_row_keys:
  assumes "file_row w a rx p 0 = Inr (r, n)"
  shows "set (map fst r) = set base_cols \<union> set (extra_cols a rx) \<union> token_col ` {1..<Suc n}"
    and "\<not> use_split a \<Longrightarrow> n = 0"
proof -
  obtain r0 where r0: "base_row w a p = Inr r0" using base_row_Inr [of w a p] by blast
  then have k0: "map fst r0 = base_cols" by (rule base_row_keys)
  have both: "set (map fst r) = set base_cols \<union> set (extra_cols a rx) \<union> token_col ` {1..<Suc n}
      \<and> (\<not> use_split a \<longrightarrow> n = 0)"
  proof (cases "use_regex a")
    case True
    with assms r0 obtain re where rx: "rx = Some re"
      by (auto simp: file_row_def add_fields_def split: option.splits)
    from file_row_regex_mode [OF True, of w p re] r0 assms rx
    have r: "r = (case rmatch re (stem p) of
               Some m \<Rightarrow> fold (\<lambda>kv. AList.update (fst kv) (snd kv)) (groupdict re m) r0
             | None \<Rightarrow> fold (\<lambda>g. setdefault g PNone) (groupindex re) r0)" and n: "n = 0"
      by auto
    have "set (map fst r) = set (map fst r0) \<union> set (groupindex re)"
      unfolding r groupdict_def
      by (cases "rmatch re (stem p)")
         (simp_all only: option.case keys_fold_setdefault keys_fold_update)
    with True rx n k0 show ?thesis by (simp add: extra_cols_def)
  next
    case False
    show ?thesis
    proof (cases "delimiter a")
      case None
      from file_row_plain_mode [OF False None, of w p rx] r0 assms
      have "r = r0" "n = 0" by auto
      with False k0 show ?thesis by (simp add: extra_cols_def)
    next
      case (Some d)
      with False assms r0 have d: "d \<noteq> []"
        by (auto simp: file_row_def add_fields_def split_def split: if_splits)
      from file_row_split_mode [OF False Some d, of w p rx] r0 assms
      have r: "r = set_tokens 1 (split_from d [] (stem p)) r0"
        and n: "n = length (split_from d [] (stem p))"
        by auto
      have "set (map fst r) = set (map fst r0) \<union> token_col ` {1..<1 + n}"
        unfolding r n by (rule keys_set_tokens)
      then have "set (map fst r) = set base_cols \<union> token_col ` {1..<Suc n}"
        by (simp only: k0 plus_1_eq_Suc)
      moreover have "extra_cols a rx = []" using False by (simp add: extra_cols_def)
      moreover have "use_split a" using False Some by (simp add: use_split_def)
      ultimately show ?thesis by simp
    qed
  qed
  from both show "set (map fst r) = set base_cols \<union> set (extra_cols a rx) \<union> token_col ` {1..<Suc n}"
    by blast
  from both show "\<not> use_split a \<Longrightarrow> n = 0" by blast
qed

lemma set_fieldnames:
  "set (fieldnames a rx K) =
     set base_cols \<union> set (extra_cols a rx) \<union> (if use_split a then token_col ` {1..<Suc K} else {})"
  by (auto simp: fieldnames_def token_cols_def)

lemma file_row_keys_subset:
  assumes "file_row w a rx p 0 = Inr (r, n)" and "n \<le> K"
  shows "set (map fst r) \<subseteq> set (fieldnames a rx K)"
proof (cases "use_split a")
  case True
  have "token_col ` {1..<Suc n} \<subseteq> token_col ` {1..<Suc K}" using assms(2) by auto
  with True file_row_keys(1) [OF assms(1)] show ?thesis
    unfolding set_fieldnames by auto
next
  case False
  with file_row_keys [OF assms(1)] show ?thesis
    unfolding set_fieldnames by auto
qed

section \<open>From the rows to the run\<close>

lemma bad_input_dir_valid:
  "exists_path fs base = Inr True \<Longrightarrow> is_dir fs base = Inr True \<Longrightarrow>
   bad_input_dir fs base = Inr False"
  by (simp add: bad_input_dir_def)

lemma bad_input_dir_False:
  "bad_input_dir fs base = Inr False \<Longrightarrow>
   exists_path fs base = Inr True \<and> is_dir fs base = Inr True"
  by (auto simp: bad_input_dir_def split: sum.splits if_splits)






lemma gather_Inr:
  assumes "gather w a = Inr (cols, rows)"
  shows "\<exists>files rx raw K.
     bad_input_dir (filesystem w) (input_dir a) = Inr False \<and>
     scan_directory (filesystem w) (input_dir a) (exts a) (\<not> no_recursive a) = Inr files \<and>
     files \<noteq> [] \<and>
     compile_regex w a = Inr rx \<and>
     build_rows w a rx files [] 0 = Inr (raw, K) \<and>
     cols = fieldnames a rx K \<and> rows = map (ensure_keys cols) raw"
  using assms
  by (auto simp: gather_def Let_def split: if_splits sum.splits prod.splits)


lemma gather_keys:
  assumes "gather w a = Inr (cols, rows)" and "r \<in> set rows"
  shows "set (map fst r) = set cols"
proof -
  from gather_Inr [OF assms(1)] obtain files rx raw K where
    b: "build_rows w a rx files [] 0 = Inr (raw, K)" and
    cols: "cols = fieldnames a rx K" and rows: "rows = map (ensure_keys cols) raw"
    by blast
  from build_rows_result [OF b] have
    len: "length raw = length files" and
    each: "\<forall>i<length files. \<exists>n. file_row w a rx (files ! i) 0 = Inr (raw ! i, n) \<and> n \<le> K"
    by auto
  from assms(2) rows obtain r' where r': "r' \<in> set raw" and r: "r = ensure_keys cols r'" by auto
  then obtain i where i: "i < length raw" and ri: "raw ! i = r'" by (auto simp: in_set_conv_nth)
  with each len obtain n where "file_row w a rx (files ! i) 0 = Inr (r', n)" and "n \<le> K"
    by auto
  then have "set (map fst r') \<subseteq> set cols" unfolding cols by (rule file_row_keys_subset)
  then show ?thesis unfolding r keys_ensure_keys by blast
qed

lemma write_rows_ok:
  "(\<And>r. r \<in> set rows \<Longrightarrow> set (map fst r) \<subseteq> set cols) \<Longrightarrow>
   write_rows w cols rows = Inr (map (\<lambda>r. map (\<lambda>c. csv_field w (cell r c)) cols) rows)"
proof (induction rows)
  case Nil
  then show ?case by simp
next
  case (Cons r rows)
  have "set (map fst r) \<subseteq> set cols" using Cons.prems by simp
  then have "dict_to_list cols r = Inr (map (cell r) cols)"
    by (auto simp: dict_to_list_def)
  moreover have "write_rows w cols rows = Inr (map (\<lambda>r. map (\<lambda>c. csv_field w (cell r c)) cols) rows)"
    by (rule Cons.IH) (rule Cons.prems, simp)
  ultimately show ?case by (simp add: comp_def)
qed

lemma gather_write_rows:
  assumes "gather w a = Inr (cols, rows)"
  shows "write_rows w cols rows = Inr (map (\<lambda>r. map (\<lambda>c. csv_field w (cell r c)) cols) rows)"
proof (rule write_rows_ok)
  fix r assume "r \<in> set rows"
  then have "set (map fst r) = set cols" by (rule gather_keys [OF assms])
  then show "set (map fst r) \<subseteq> set cols" by (simp only: subset_refl)
qed

lemma main_success:
  assumes "gather w a = Inr (cols, rows)" and "open_write w (output_path a) = WriteSucceeds"
    and "stdout_error w = None"
  shows "main w a =
     \<lparr>status = 0, stdout = [CsvWritten (resolve_str w (output_path a))], stderr = [],
      written = Complete (cols # map (\<lambda>r. map (\<lambda>c. csv_field w (cell r c)) cols) rows)\<rparr>"
  using assms gather_write_rows [OF assms(1)] by (simp add: main_def write_csv_def)

lemma main_print_raises:
  assumes "gather w a = Inr (cols, rows)" and "open_write w (output_path a) = WriteSucceeds"
    and "stdout_error w = Some e"
  shows "main w a =
     fatal (WriteError e) (Complete (cols # map (\<lambda>r. map (\<lambda>c. csv_field w (cell r c)) cols) rows))"
  using assms gather_write_rows [OF assms(1)] by (simp add: main_def write_csv_def)

lemma main_written:
  assumes "gather w a = Inr (cols, rows)" and "open_write w (output_path a) = WriteSucceeds"
  shows "written (main w a) =
     Complete (cols # map (\<lambda>r. map (\<lambda>c. csv_field w (cell r c)) cols) rows)"
proof (cases "stdout_error w")
  case None
  with main_success [OF assms] show ?thesis by simp
next
  case (Some e)
  with main_print_raises [OF assms] show ?thesis by (simp add: fatal_def)
qed

lemma main_write_failure:
  assumes "gather w a = Inr (cols, rows)" and "open_write w (output_path a) \<noteq> WriteSucceeds"
  shows "\<exists>e f. main w a = fatal (WriteError e) f \<and> (\<forall>t. f \<noteq> Complete t)"
  using assms by (cases "open_write w (output_path a)") (auto simp: main_def write_csv_def)


lemma gather_length:
  assumes "gather w a = Inr (cols, rows)"
    and "scan_directory (filesystem w) (input_dir a) (exts a) (\<not> no_recursive a) = Inr files"
  shows "length rows = length files"
proof -
  from gather_Inr [OF assms(1)] assms(2) obtain rx raw K where
    b: "build_rows w a rx files [] 0 = Inr (raw, K)" and rows: "rows = map (ensure_keys cols) raw"
    by auto
  from build_rows_result [OF b] have "length raw = length files" by auto
  with rows show ?thesis by simp
qed

lemma gather_empty_delimiter:
  assumes "bad_input_dir (filesystem w) (input_dir a) = Inr False"
    and "scan_directory (filesystem w) (input_dir a) (exts a) (\<not> no_recursive a) = Inr files"
    and "files \<noteq> []"
    and "\<not> use_regex a" and "delimiter a = Some []"
  shows "gather w a = Inl (Traceback ValueError)"
proof -
  obtain p ps where files: "files = p # ps" using assms(3) by (cases files) auto
  have "file_row w a None p 0 = Inl ValueError"
    using assms(4,5) by (rule file_row_split_empty)
  then have "build_rows w a None files [] 0 = Inl ValueError" by (simp add: files)
  moreover have "compile_regex w a = Inr None" using assms(4) by (rule compile_regex_none)
  ultimately show ?thesis using assms(1,2,3) by (simp add: gather_def Let_def)
qed




lemma base_row_no_key:
  "base_row w a p = Inr r0 \<Longrightarrow> k \<notin> set base_cols \<Longrightarrow> map_of r0 k = None"
proof -
  assume b: "base_row w a p = Inr r0" and k: "k \<notin> set base_cols"
  from b have "map fst r0 = base_cols" by (rule base_row_keys)
  then have "fst ` set r0 = set base_cols" by (metis set_map)
  with k have "k \<notin> fst ` set r0" by simp
  then show ?thesis by (simp add: map_of_eq_None_iff)
qed

section \<open>The traversal\<close>




lemma stat_path_errors:
  "stat_path fs p = Inl e \<Longrightarrow>
   e = FileNotFoundError \<or> e = NotADirectoryError \<or> e = PermissionError"
proof -
  have l: "lookup n p = Inl e \<Longrightarrow>
      e = FileNotFoundError \<or> e = NotADirectoryError \<or> e = PermissionError" for n
    by (induction p arbitrary: n) (auto split: option.splits node.splits)
  assume "stat_path fs p = Inl e"
  then show ?thesis using l [of fs]
    by (auto simp: stat_path_def split: sum.splits option.splits node.splits)
qed


lemma is_file_examinable:
  "examinable fs p \<Longrightarrow> is_file fs p = Inr (regular_file fs p)"
proof -
  assume e: "examinable fs p"
  show ?thesis
  proof (cases "stat_path fs p")
    case (Inl x)
    with e have "x \<noteq> PermissionError" by (simp add: examinable_def)
    with stat_path_errors [OF Inl] have "ignore_error x" by (auto simp: ignore_error_def)
    with Inl show ?thesis by (simp add: is_file_def regular_file_def)
  next
    case (Inr n)
    then show ?thesis by (cases n) (simp_all add: is_file_def regular_file_def)
  qed
qed

lemma is_file_raises:
  "is_file fs p = Inl e \<longleftrightarrow> e = PermissionError \<and> \<not> examinable fs p"
proof
  assume a: "is_file fs p = Inl e"
  then have s: "stat_path fs p = Inl e" and n: "\<not> ignore_error e"
    by (auto simp: is_file_def split: sum.splits if_splits)
  from stat_path_errors [OF s] n have "e = PermissionError" by (auto simp: ignore_error_def)
  with s show "e = PermissionError \<and> \<not> examinable fs p" by (simp add: examinable_def)
next
  assume "e = PermissionError \<and> \<not> examinable fs p"
  then show "is_file fs p = Inl e"
    by (simp add: examinable_def is_file_def ignore_error_def)
qed

lemma is_file_True: "is_file fs p = Inr True \<longleftrightarrow> regular_file fs p"
  by (auto simp: is_file_def regular_file_def split: sum.splits node.splits)

lemma reach_nonempty_dir:
  "reach n (c # cs) \<longleftrightarrow> (\<exists>es ch. n = Directory es \<and> map_of es c = Some ch \<and> reach ch cs)"
  by (cases n) (auto split: option.splits)








lemma select_files_examinable:
  "(\<And>p. p \<in> set it \<Longrightarrow> examinable fs p) \<Longrightarrow>
   select_files fs l it = Inr (filter (\<lambda>p. regular_file fs p \<and> keeps l p) it)"
  by (induction it) (simp_all add: is_file_examinable)

lemma select_files_Inr:
  "select_files fs l it = Inr files \<Longrightarrow>
   files = filter (\<lambda>p. is_file fs p = Inr True \<and> keeps l p) it \<and>
   (\<forall>p \<in> set it. \<exists>f. is_file fs p = Inr f)"
  by (induction it arbitrary: files) (auto split: sum.splits)

lemma select_files_raises:
  "select_files fs l it = Inl e \<Longrightarrow> \<exists>p \<in> set it. is_file fs p = Inl e"
  by (induction it) (auto split: sum.splits)

lemma select_files_total:
  "(\<And>p. p \<in> set it \<Longrightarrow> \<exists>f. is_file fs p = Inr f) \<Longrightarrow>
   select_files fs l it = Inr (filter (\<lambda>p. is_file fs p = Inr True \<and> keeps l p) it)"
proof (induction it)
  case Nil
  then show ?case by simp
next
  case (Cons p ps)
  from Cons.prems [of p] obtain f where f: "is_file fs p = Inr f" by auto
  have "select_files fs l ps = Inr (filter (\<lambda>p. is_file fs p = Inr True \<and> keeps l p) ps)"
    by (rule Cons.IH) (simp add: Cons.prems)
  with f show ?case by simp
qed

text \<open>The filter of the code against the filter of the specification.\<close>

lemma normalize_ext_with_dot: "normalize_ext e = lower (with_dot e)"
  by (cases e) (auto simp: normalize_ext_def startswith_dot_def lower_def lower_char_dot)

lemma keeps_passes: "keeps (normalize_exts extensions) p = passes extensions p"
proof (cases extensions)
  case None
  then show ?thesis by (simp add: keeps_def normalize_exts_def truthy_list_def)
next
  case (Some es)
  show ?thesis
  proof (cases es)
    case Nil
    with Some show ?thesis by (simp add: keeps_def normalize_exts_def truthy_list_def)
  next
    case (Cons e es')
    with Some show ?thesis
      by (auto simp: keeps_def normalize_exts_def truthy_list_def normalize_ext_with_dot)
  qed
qed
section \<open>Splitting and joining\<close>

lemma split_from_nonempty: "split_from sep acc s \<noteq> []"
  by (induction sep acc s rule: split_from.induct) auto

lemma join_Cons: "ts \<noteq> [] \<Longrightarrow> join sep (t # ts) = t @ sep @ join sep ts"
  by (cases ts) auto

lemma join_split_from: "join sep (split_from sep acc s) = acc @ s"
proof (induction sep acc s rule: split_from.induct)
  case (1 sep acc)
  then show ?case by simp
next
  case (2 sep acc c cs)
  show ?case
  proof (cases "sep \<noteq> [] \<and> take (length sep) (c # cs) = sep")
    case True
    then have "join sep (split_from sep acc (c # cs)) =
        acc @ sep @ join sep (split_from sep [] (drop (length sep) (c # cs)))"
      by (simp add: join_Cons split_from_nonempty del: join.simps)
    also have "\<dots> = acc @ sep @ drop (length sep) (c # cs)" using 2(1) True by simp
    also have "\<dots> = acc @ take (length sep) (c # cs) @ drop (length sep) (c # cs)" using True by simp
    also have "\<dots> = acc @ (c # cs)" by (simp only: append_take_drop_id)
    finally show ?thesis .
  next
    case False
    then have "split_from sep acc (c # cs) = split_from sep (acc @ [c]) cs" by auto
    with 2(2) False show ?thesis by simp
  qed
qed

section \<open>The rows of a run\<close>

lemma gather_rows:
  assumes "gather w a = Inr (cols, rows)"
  shows "\<exists>files rx K.
     scan_directory (filesystem w) (input_dir a) (exts a) (\<not> no_recursive a) = Inr files \<and>
     compile_regex w a = Inr rx \<and> cols = fieldnames a rx K \<and>
     length rows = length files \<and>
     (\<forall>i<length rows. \<exists>r n.
         file_row w a rx (files ! i) 0 = Inr (r, n) \<and> n \<le> K \<and> rows ! i = ensure_keys cols r) \<and>
     (K = 0 \<or> (\<exists>i<length rows. \<exists>r. file_row w a rx (files ! i) 0 = Inr (r, K)))"
proof -
  from gather_Inr [OF assms] obtain files rx raw K where
    s: "scan_directory (filesystem w) (input_dir a) (exts a) (\<not> no_recursive a) = Inr files" and
    c: "compile_regex w a = Inr rx" and
    b: "build_rows w a rx files [] 0 = Inr (raw, K)" and
    cols: "cols = fieldnames a rx K" and rows: "rows = map (ensure_keys cols) raw"
    by blast
  from build_rows_result [OF b] have
    len: "length raw = length files" and
    each: "\<forall>i<length files. \<exists>n. file_row w a rx (files ! i) 0 = Inr (raw ! i, n) \<and> n \<le> K" and
    top: "K = 0 \<or> (\<exists>i<length files. \<exists>r. file_row w a rx (files ! i) 0 = Inr (r, K))"
    by auto
  have l: "length rows = length files" using len rows by simp
  have e: "\<forall>i<length rows. \<exists>r n. file_row w a rx (files ! i) 0 = Inr (r, n) \<and> n \<le> K \<and>
      rows ! i = ensure_keys cols r"
  proof (intro allI impI)
    fix i assume i: "i < length rows"
    with l each obtain n where "file_row w a rx (files ! i) 0 = Inr (raw ! i, n)" "n \<le> K" by auto
    moreover have "rows ! i = ensure_keys cols (raw ! i)" using i rows by simp
    ultimately show "\<exists>r n. file_row w a rx (files ! i) 0 = Inr (r, n) \<and> n \<le> K \<and>
      rows ! i = ensure_keys cols r" by blast
  qed
  from top l have t: "K = 0 \<or> (\<exists>i<length rows. \<exists>r. file_row w a rx (files ! i) 0 = Inr (r, K))"
    by simp
  from s c cols l e t show ?thesis by blast
qed

lemma gather_nonempty:
  assumes "gather w a = Inr (cols, rows)"
  shows "rows \<noteq> []"
proof -
  from gather_Inr [OF assms] obtain files where
    s: "scan_directory (filesystem w) (input_dir a) (exts a) (\<not> no_recursive a) = Inr files"
    and n: "files \<noteq> []" by blast
  from gather_length [OF assms s] n show ?thesis by auto
qed

lemma main_Complete:
  assumes "written (main w a) = Complete tbl"
  shows "\<exists>cols rows. gather w a = Inr (cols, rows) \<and> open_write w (output_path a) = WriteSucceeds"
  using assms
  by (auto simp: main_def write_csv_def fatal_def
      split: sum.splits prod.splits write_outcome.splits option.splits)

lemma fieldnames_cases:
  "compile_regex w a = Inr rx \<Longrightarrow>
   fieldnames a rx K =
     base_cols @ (if use_regex a then (case rx of Some re \<Rightarrow> groupindex re | None \<Rightarrow> [])
                  else if delimiter a \<noteq> None then map token_col [1..<Suc K] else [])"
  by (auto simp: fieldnames_def extra_cols_def token_cols_def use_split_def)

lemma count_list_distinct: "distinct xs \<Longrightarrow> x \<in> set xs \<Longrightarrow> count_list xs x = 1"
  by (induction xs) (auto simp: count_list_0_iff)

section \<open>The example runs\<close>

lemma ex_scan: "scan_directory (filesystem ex_world) [''audio''] None True = Inr ex_files"
  by code_simp

lemma ex_scan_tokens:
  "scan_directory (filesystem ex_world) (input_dir ex_args_tokens) (exts ex_args_tokens)
     (\<not> no_recursive ex_args_tokens) = Inr ex_files"
  by code_simp

lemma ex_scan_regex:
  "scan_directory (filesystem ex_world) (input_dir ex_args_regex) (exts ex_args_regex)
     (\<not> no_recursive ex_args_regex) = Inr ex_files"
  by code_simp

lemma ex_scan_collide:
  "scan_directory (filesystem ex_world) (input_dir ex_args_collide) (exts ex_args_collide)
     (\<not> no_recursive ex_args_collide) = Inr ex_files"
  by code_simp

lemma ex_stems:
  "stem (ex_files ! 0) = ''a_b_c''" "stem (ex_files ! 1) = ''chat_12''"
  "stem (ex_files ! 2) = ''link''" "stem (ex_files ! 3) = ''007''"
  by code_simp+

lemma ex_gather: "gather ex_world ex_args = Inr (base_cols, ex_rows)"
  by code_simp

lemma ex_gather_ro: "gather ex_world (ex_args\<lparr>output_path := [''ro'', ''out.csv'']\<rparr>) = Inr (base_cols, ex_rows)"
  by code_simp

lemma ex_gather_tokens:
  "gather ex_world ex_args_tokens =
     Inr (base_cols @ [''token_1'', ''token_2'', ''token_3''], ex_rows_tokens)"
  by code_simp

lemma ex_gather_regex:
  "gather ex_world ex_args_regex = Inr (base_cols @ [''sujet'', ''age''], ex_rows_regex)"
  by code_simp

lemma ex_gather_collide:
  "gather ex_world ex_args_collide = Inr (base_cols @ [''filename''], ex_rows_collide)"
  by code_simp

lemma ex_compile_regex: "compile_regex ex_world ex_args_regex = Inr (Some sujet_age)"
  by (simp add: compile_regex_def ex_args_regex_def ex_args_def ex_world_def ex_compile_def)

lemma ex_compile_collide: "compile_regex ex_world ex_args_collide = Inr (Some filename_rx)"
  by (simp add: compile_regex_def ex_args_collide_def ex_args_def ex_world_def ex_compile_def)

lemma ex_match_chat:
  "rmatch sujet_age ''chat_12'' =
     Some (\<lambda>g. if g = ''sujet'' then Some ''chat'' else if g = ''age'' then Some ''12'' else None)"
  by (simp add: sujet_age_def is_digit_def)

lemma ex_nomatch_abc: "rmatch sujet_age ''a_b_c'' = None"
  by (simp add: sujet_age_def is_digit_def)

lemma ex_match_collide:
  "rmatch filename_rx ''chat_12'' = Some (\<lambda>g. if g = ''filename'' then Some ''chat'' else None)"
  by (simp add: filename_rx_def is_lower_def)

lemma ex_nomatch_collide: "rmatch filename_rx ''007'' = None"
  by (simp add: filename_rx_def is_lower_def)

section \<open>The claims\<close>

text \<open>
  C1. The claim is about every invocation with an existing input directory that holds
  a matching file and with an output that can be written. No invocation gets that far:
  the call that declares the positional argument does not parse, so the module does not
  compile and every run ends with the traceback of a \<open>SyntaxError\<close> and status 1,
  before \<open>main\<close> is entered, with nothing on standard output and no CSV file. The
  run over the directory \<open>audio\<close> of the example, which meets every condition of
  the claim, is one of them.
\<close>

theorem module_does_not_compile:
  "\<not> call_arguments positional_argument \<and>
   invoke w a =
     \<lparr>status = 1, stdout = [], stderr = [Traceback SyntaxError], written = NotWritten\<rparr> \<and>
   exists_path (filesystem ex_world) (input_dir ex_args) = Inr True \<and>
   is_dir (filesystem ex_world) (input_dir ex_args) = Inr True \<and>
   scan_directory (filesystem ex_world) (input_dir ex_args) (exts ex_args)
     (\<not> no_recursive ex_args) =
     Inr [[''audio'', ''a_b_c.wav''], [''audio'', ''chat_12.WAV''], [''audio'', ''link.wav''],
          [''audio'', ''sub'', ''007.mp3'']] \<and>
   open_write ex_world (output_path ex_args) = WriteSucceeds \<and>
   stdout_error ex_world = None \<and>
   invoke ex_world ex_args =
     \<lparr>status = 1, stdout = [], stderr = [Traceback SyntaxError], written = NotWritten\<rparr>"
proof -
  have c: "\<not> call_arguments positional_argument" by code_simp
  then have i: "invoke w a =
     \<lparr>status = 1, stdout = [], stderr = [Traceback SyntaxError], written = NotWritten\<rparr>" for w a
    by (simp add: invoke_def compiles_def fatal_def)
  have h1: "exists_path (filesystem ex_world) (input_dir ex_args) = Inr True" by code_simp
  have h2: "is_dir (filesystem ex_world) (input_dir ex_args) = Inr True" by code_simp
  have h3: "scan_directory (filesystem ex_world) (input_dir ex_args) (exts ex_args)
     (\<not> no_recursive ex_args) =
     Inr [[''audio'', ''a_b_c.wav''], [''audio'', ''chat_12.WAV''], [''audio'', ''link.wav''],
          [''audio'', ''sub'', ''007.mp3'']]" by code_simp
  have h4: "open_write ex_world (output_path ex_args) = WriteSucceeds" by code_simp
  have h5: "stdout_error ex_world = None" by code_simp
  show ?thesis by (intro conjI) (fact | rule i)+
qed

text \<open>
  C2. \<open>get_duration_seconds\<close> never raises. It returns the length of the general probe
  when the probe yields a usable one; otherwise, for a file whose lower-cased suffix is
  \<open>.wav\<close> and which \<open>wave\<close> opens with a positive frame rate, the quotient of the
  frame count and the frame rate; and \<open>None\<close> in every other case, every failure of
  either probe included.
\<close>

theorem get_duration_seconds_spec:
  "get_duration_seconds p fi =
     Inr (case usable_length (mutagen fi) of
            Some x \<Rightarrow> Some (FloatOf x)
          | None \<Rightarrow>
              if lower (suffix p) = ''.wav'' then
                (case wave fi of
                   Inr (frames, framerate) \<Rightarrow>
                     if 0 < framerate then Some (TrueDiv frames framerate) else None
                 | Inl e \<Rightarrow> None)
              else None)"
  by (cases "mutagen fi"; cases "wave fi")
     (auto simp: get_duration_seconds_def usable_length_def mutagen_try_def wave_try_def
           split: option.splits length_attr.splits)




text \<open>
  C4. Every table that a run writes is rectangular: it is the header followed by one
  line per row, each line with one cell per header column; every row handed to the
  writer has exactly the header's columns as keys; a cell whose value is \<open>None\<close> is
  written as the empty text; and the header is the six fixed columns in their order,
  followed by the group names of the pattern in regex mode, or by \<open>token_1\<close> to
  \<open>token_K\<close> when a delimiter is used.
\<close>

theorem table_rectangular:
  assumes "written (main w a) = Complete tbl"
  shows "\<exists>cols rows rx K. gather w a = Inr (cols, rows) \<and> compile_regex w a = Inr rx \<and>
     tbl = cols # map (\<lambda>r. map (\<lambda>c. csv_field w (cell r c)) cols) rows \<and>
     cols = base_cols @
       (if use_regex a then (case rx of Some re \<Rightarrow> groupindex re | None \<Rightarrow> [])
        else if delimiter a \<noteq> None then map token_col [1..<Suc K] else []) \<and>
     (\<forall>r \<in> set rows. set (map fst r) = set cols) \<and>
     (\<forall>l \<in> set tbl. length l = length cols) \<and>
     (\<forall>r \<in> set rows. \<forall>c \<in> set cols. map_of r c = Some PNone \<longrightarrow> csv_field w (cell r c) = [])"
proof -
  from main_Complete [OF assms] obtain cols rows where
    g: "gather w a = Inr (cols, rows)" and o: "open_write w (output_path a) = WriteSucceeds"
    by blast
  from main_written [OF g o] assms
  have tbl: "tbl = cols # map (\<lambda>r. map (\<lambda>c. csv_field w (cell r c)) cols) rows" by simp
  from gather_rows [OF g] obtain files rx K where
    c: "compile_regex w a = Inr rx" and cols: "cols = fieldnames a rx K" by blast
  have h: "cols = base_cols @
       (if use_regex a then (case rx of Some re \<Rightarrow> groupindex re | None \<Rightarrow> [])
        else if delimiter a \<noteq> None then map token_col [1..<Suc K] else [])"
    unfolding cols by (rule fieldnames_cases [OF c])
  have k: "\<forall>r \<in> set rows. set (map fst r) = set cols" using gather_keys [OF g] by blast
  have l: "\<forall>l \<in> set tbl. length l = length cols" unfolding tbl by auto
  have n: "\<forall>r \<in> set rows. \<forall>c \<in> set cols. map_of r c = Some PNone \<longrightarrow> csv_field w (cell r c) = []"
    by (simp add: cell_def csv_field_def)
  from g c tbl h k l n show ?thesis by blast
qed

theorem table_rectangular_witness:
  "written (main ex_world ex_args_tokens) =
     Complete
       [[''filepath'', ''filename'', ''name'', ''ext'', ''size_bytes'', ''duration_seconds'',
         ''token_1'', ''token_2'', ''token_3''],
        [''/audio/a_b_c.wav'', ''a_b_c.wav'', ''a_b_c'', ''.wav'', [], [], ''a'', ''b'', ''c''],
        [''/audio/chat_12.WAV'', ''chat_12.WAV'', ''chat_12'', ''.wav'', ''1024'', ''2.0'',
         ''chat'', ''12'', []],
        [''/store/take.wav'', ''link.wav'', ''link'', ''.wav'', ''1024'', ''2.0'',
         ''link'', [], []],
        [''/audio/sub/007.mp3'', ''007.mp3'', ''007'', ''.mp3'', ''2048'', [], ''007'', [], []]] \<and>
   (\<exists>cols rows rx K. gather ex_world ex_args_tokens = Inr (cols, rows) \<and>
      compile_regex ex_world ex_args_tokens = Inr rx \<and>
      cols = base_cols @ map token_col [1..<Suc K] \<and>
      list_all (\<lambda>r. set (map fst r) = set cols) rows)"
proof -
  let ?tbl = "[[''filepath'', ''filename'', ''name'', ''ext'', ''size_bytes'', ''duration_seconds'',
         ''token_1'', ''token_2'', ''token_3''],
        [''/audio/a_b_c.wav'', ''a_b_c.wav'', ''a_b_c'', ''.wav'', [], [], ''a'', ''b'', ''c''],
        [''/audio/chat_12.WAV'', ''chat_12.WAV'', ''chat_12'', ''.wav'', ''1024'', ''2.0'',
         ''chat'', ''12'', []],
        [''/store/take.wav'', ''link.wav'', ''link'', ''.wav'', ''1024'', ''2.0'',
         ''link'', [], []],
        [''/audio/sub/007.mp3'', ''007.mp3'', ''007'', ''.mp3'', ''2048'', [], ''007'', [], []]]"
  have h: "written (main ex_world ex_args_tokens) = Complete ?tbl" by code_simp
  have u: "\<not> use_regex ex_args_tokens" by code_simp
  have d: "delimiter ex_args_tokens \<noteq> None" by code_simp
  from table_rectangular [OF h] obtain cols rows rx K where
    "gather ex_world ex_args_tokens = Inr (cols, rows)"
    "compile_regex ex_world ex_args_tokens = Inr rx"
    "cols = base_cols @
       (if use_regex ex_args_tokens then (case rx of Some re \<Rightarrow> groupindex re | None \<Rightarrow> [])
        else if delimiter ex_args_tokens \<noteq> None then map token_col [1..<Suc K] else [])"
    "\<forall>r \<in> set rows. set (map fst r) = set cols"
    by blast
  with u d have "gather ex_world ex_args_tokens = Inr (cols, rows) \<and>
      compile_regex ex_world ex_args_tokens = Inr rx \<and>
      cols = base_cols @ map token_col [1..<Suc K] \<and>
      list_all (\<lambda>r. set (map fst r) = set cols) rows"
    by (simp add: list_all_iff)
  with h show ?thesis by blast
qed

text \<open>
  C5. In regex mode a row is to hold every group of the pattern: what the group
  captured when the stem matches, and an absent value when it does not. The source
  says so above its own branch (\<open># keep empty for those groups if no match\<close>), and
  fills the row there with \<open>row.setdefault(g, None)\<close>, which leaves a key alone that
  the row already has. For a group with the name of a fixed column the row then keeps
  the fixed value: with the pattern \<open>(?P<filename>[a-z]+)\<close> the stem \<open>007\<close> does not
  match, and the written line of \<open>007.mp3\<close> holds \<open>007.mp3\<close> in both columns
  named \<open>filename\<close>, while the lines of the matching stems hold the captured text
  there.
\<close>

theorem regex_nonmatch_keeps_fixed_value:
  "compile_regex ex_world ex_args_collide = Inr (Some filename_rx) \<and>
   groupindex filename_rx = [''filename''] \<and>
   scan_directory (filesystem ex_world) (input_dir ex_args_collide) (exts ex_args_collide)
     (\<not> no_recursive ex_args_collide) =
     Inr [[''audio'', ''a_b_c.wav''], [''audio'', ''chat_12.WAV''], [''audio'', ''link.wav''],
          [''audio'', ''sub'', ''007.mp3'']] \<and>
   rmatch filename_rx (stem [''audio'', ''sub'', ''007.mp3'']) = None \<and>
   written (main ex_world ex_args_collide) =
     Complete
       [[''filepath'', ''filename'', ''name'', ''ext'', ''size_bytes'', ''duration_seconds'',
         ''filename''],
        [''/audio/a_b_c.wav'', ''a'', ''a_b_c'', ''.wav'', [], [], ''a''],
        [''/audio/chat_12.WAV'', ''chat'', ''chat_12'', ''.wav'', ''1024'', ''2.0'', ''chat''],
        [''/store/take.wav'', ''link'', ''link'', ''.wav'', ''1024'', ''2.0'', ''link''],
        [''/audio/sub/007.mp3'', ''007.mp3'', ''007'', ''.mp3'', ''2048'', [], ''007.mp3'']]"
proof -
  have g: "groupindex filename_rx = [''filename'']" by (simp add: filename_rx_def)
  have f: "scan_directory (filesystem ex_world) (input_dir ex_args_collide) (exts ex_args_collide)
     (\<not> no_recursive ex_args_collide) =
     Inr [[''audio'', ''a_b_c.wav''], [''audio'', ''chat_12.WAV''], [''audio'', ''link.wav''],
          [''audio'', ''sub'', ''007.mp3'']]" by code_simp
  have "stem [''audio'', ''sub'', ''007.mp3''] = ''007''" by code_simp
  then have n: "rmatch filename_rx (stem [''audio'', ''sub'', ''007.mp3'']) = None"
    by (simp only: ex_nomatch_collide)
  have t: "written (main ex_world ex_args_collide) =
     Complete
       [[''filepath'', ''filename'', ''name'', ''ext'', ''size_bytes'', ''duration_seconds'',
         ''filename''],
        [''/audio/a_b_c.wav'', ''a'', ''a_b_c'', ''.wav'', [], [], ''a''],
        [''/audio/chat_12.WAV'', ''chat'', ''chat_12'', ''.wav'', ''1024'', ''2.0'', ''chat''],
        [''/store/take.wav'', ''link'', ''link'', ''.wav'', ''1024'', ''2.0'', ''link''],
        [''/audio/sub/007.mp3'', ''007.mp3'', ''007'', ''.mp3'', ''2048'', [], ''007.mp3'']]"
    by code_simp
  show ?thesis
    by (intro conjI) (fact | rule ex_compile_collide)+
qed

text \<open>
  What the regex branch does in general. Whatever the delimiter, the columns are the
  six fixed ones followed by the group names, and the pattern is applied with
  \<open>match\<close> to the stem of each file. When it matches, every group's entry of the row
  is what the group captured. When it does not, every group's entry is present:
  \<open>None\<close> for a group whose name is not a fixed column, and the fixed column's own
  value otherwise.
\<close>

theorem regex_columns:
  assumes "gather w a = Inr (cols, rows)" and "compile_regex w a = Inr (Some re)"
    and "scan_directory (filesystem w) (input_dir a) (exts a) (\<not> no_recursive a) = Inr files"
  shows "cols = base_cols @ groupindex re \<and>
     length rows = length files \<and>
     (\<forall>i<length rows. \<exists>r0.
        base_row w a (files ! i) = Inr r0 \<and>
        (case rmatch re (stem (files ! i)) of
           Some m \<Rightarrow> \<forall>g \<in> set (groupindex re). map_of (rows ! i) g = Some (of_capture (m g))
         | None \<Rightarrow> \<forall>g \<in> set (groupindex re).
             map_of (rows ! i) g = (if g \<in> set base_cols then map_of r0 g else Some PNone)))"
proof -
  have u: "use_regex a" using assms(2) by (rule compile_regex_some)
  from gather_rows [OF assms(1)] assms(2,3) obtain K where
    cols: "cols = fieldnames a (Some re) K" and len: "length rows = length files" and
    each: "\<forall>i<length rows. \<exists>r n. file_row w a (Some re) (files ! i) 0 = Inr (r, n) \<and> n \<le> K \<and>
      rows ! i = ensure_keys cols r"
    by auto
  have c: "cols = base_cols @ groupindex re"
    unfolding cols using u by (simp add: fieldnames_def extra_cols_def token_cols_def use_split_def)
  have "\<forall>i<length rows. \<exists>r0. base_row w a (files ! i) = Inr r0 \<and>
        (case rmatch re (stem (files ! i)) of
           Some m \<Rightarrow> \<forall>g \<in> set (groupindex re). map_of (rows ! i) g = Some (of_capture (m g))
         | None \<Rightarrow> \<forall>g \<in> set (groupindex re).
             map_of (rows ! i) g = (if g \<in> set base_cols then map_of r0 g else Some PNone))"
  proof (intro allI impI)
    fix i assume i: "i < length rows"
    let ?p = "files ! i"
    from each i obtain r n where
      fr: "file_row w a (Some re) ?p 0 = Inr (r, n)" and ri: "rows ! i = ensure_keys cols r" by blast
    from file_row_regex_mode [OF u, of w ?p re] fr obtain r0 where
      r0: "base_row w a ?p = Inr r0" and
      r: "r = (case rmatch re (stem ?p) of
               Some m \<Rightarrow> fold (\<lambda>kv. AList.update (fst kv) (snd kv)) (groupdict re m) r0
             | None \<Rightarrow> fold (\<lambda>g. setdefault g PNone) (groupindex re) r0)"
      by auto
    have "case rmatch re (stem ?p) of
           Some m \<Rightarrow> \<forall>g \<in> set (groupindex re). map_of (rows ! i) g = Some (of_capture (m g))
         | None \<Rightarrow> \<forall>g \<in> set (groupindex re).
             map_of (rows ! i) g = (if g \<in> set base_cols then map_of r0 g else Some PNone)"
    proof (cases "rmatch re (stem ?p)")
      case (Some m)
      have "\<forall>g \<in> set (groupindex re). map_of (rows ! i) g = Some (of_capture (m g))"
      proof
        fix g assume g: "g \<in> set (groupindex re)"
        have "map_of r g = Some (of_capture (m g))"
          using g unfolding r Some groupdict_def by (simp add: map_of_fold_update)
        then show "map_of (rows ! i) g = Some (of_capture (m g))"
          unfolding ri by (simp add: map_of_ensure_keys)
      qed
      with Some show ?thesis by simp
    next
      case None
      have "\<forall>g \<in> set (groupindex re).
             map_of (rows ! i) g = (if g \<in> set base_cols then map_of r0 g else Some PNone)"
      proof
        fix g assume g: "g \<in> set (groupindex re)"
        have rg: "map_of r g = (case map_of r0 g of Some x \<Rightarrow> Some x | None \<Rightarrow> Some PNone)"
          using g unfolding r None by (simp add: map_of_fold_setdefault)
        show "map_of (rows ! i) g = (if g \<in> set base_cols then map_of r0 g else Some PNone)"
        proof (cases "g \<in> set base_cols")
          case True
          then have "g \<in> fst ` set r0" using base_row_keys [OF r0] by (metis set_map)
          then obtain v where "map_of r0 g = Some v"
            by (cases "map_of r0 g") (auto simp: map_of_eq_None_iff)
          with True rg show ?thesis unfolding ri by (simp add: map_of_ensure_keys)
        next
          case False
          then have "map_of r0 g = None" by (rule base_row_no_key [OF r0])
          with False rg show ?thesis unfolding ri by (simp add: map_of_ensure_keys)
        qed
      qed
      with None show ?thesis by simp
    qed
    with r0 show "\<exists>r0. base_row w a ?p = Inr r0 \<and>
        (case rmatch re (stem ?p) of
           Some m \<Rightarrow> \<forall>g \<in> set (groupindex re). map_of (rows ! i) g = Some (of_capture (m g))
         | None \<Rightarrow> \<forall>g \<in> set (groupindex re).
             map_of (rows ! i) g = (if g \<in> set base_cols then map_of r0 g else Some PNone))"
      by blast
  qed
  with c len show ?thesis by blast
qed

theorem regex_columns_example:
  "gather ex_world ex_args_regex = Inr (base_cols @ [''sujet'', ''age''], ex_rows_regex) \<and>
   compile_regex ex_world ex_args_regex = Inr (Some sujet_age) \<and>
   delimiter ex_args_regex = Some ''_'' \<and>
   base_cols @ [''sujet'', ''age''] = base_cols @ groupindex sujet_age \<and>
   map_of (ex_rows_regex ! 1) ''sujet'' = Some (PStr ''chat'') \<and>
   map_of (ex_rows_regex ! 1) ''age'' = Some (PStr ''12'') \<and>
   map_of (ex_rows_regex ! 0) ''sujet'' = Some PNone \<and>
   map_of (ex_rows_regex ! 0) ''age'' = Some PNone"
proof -
  note t = regex_columns [OF ex_gather_regex ex_compile_regex ex_scan_regex]
  note each = t [THEN conjunct2, THEN conjunct2, rule_format]
  have g: "groupindex sujet_age = [''sujet'', ''age'']" by (simp add: sujet_age_def)
  have nb: "''sujet'' \<notin> set base_cols" "''age'' \<notin> set base_cols" by (simp_all add: base_cols_def)
  from t have c: "base_cols @ [''sujet'', ''age''] = base_cols @ groupindex sujet_age" by blast
  have "1 < length ex_rows_regex" by (simp add: ex_rows_regex_def)
  from each [OF this] obtain r1 where
    "case rmatch sujet_age (stem (ex_files ! 1)) of
           Some m \<Rightarrow> \<forall>g \<in> set (groupindex sujet_age). map_of (ex_rows_regex ! 1) g = Some (of_capture (m g))
         | None \<Rightarrow> \<forall>g \<in> set (groupindex sujet_age).
             map_of (ex_rows_regex ! 1) g = (if g \<in> set base_cols then map_of r1 g else Some PNone)"
    by blast
  then have "\<forall>g \<in> set [''sujet'', ''age''].
      map_of (ex_rows_regex ! 1) g =
        Some (of_capture (if g = ''sujet'' then Some ''chat'' else if g = ''age'' then Some ''12'' else None))"
    unfolding ex_stems ex_match_chat g by (simp only: option.case)
  then have m: "map_of (ex_rows_regex ! 1) ''sujet'' = Some (PStr ''chat'') \<and>
      map_of (ex_rows_regex ! 1) ''age'' = Some (PStr ''12'')"
    by (simp add: of_capture_def)
  have "0 < length ex_rows_regex" by (simp add: ex_rows_regex_def)
  from each [OF this] obtain r0 where
    "case rmatch sujet_age (stem (ex_files ! 0)) of
           Some m \<Rightarrow> \<forall>g \<in> set (groupindex sujet_age). map_of (ex_rows_regex ! 0) g = Some (of_capture (m g))
         | None \<Rightarrow> \<forall>g \<in> set (groupindex sujet_age).
             map_of (ex_rows_regex ! 0) g = (if g \<in> set base_cols then map_of r0 g else Some PNone)"
    by blast
  then have "\<forall>g \<in> set [''sujet'', ''age''].
      map_of (ex_rows_regex ! 0) g = (if g \<in> set base_cols then map_of r0 g else Some PNone)"
    unfolding ex_stems ex_nomatch_abc g by (simp only: option.case)
  then have n: "map_of (ex_rows_regex ! 0) ''sujet'' = Some PNone \<and>
      map_of (ex_rows_regex ! 0) ''age'' = Some PNone"
    using nb by simp
  have d: "delimiter ex_args_regex = Some ''_''" by code_simp
  from ex_gather_regex ex_compile_regex d c m n show ?thesis by blast
qed

text \<open>
  C6. With a delimiter and no regex, the stem of each file is split on the delimiter
  (joining the tokens with it gives the stem back); the columns are the six fixed ones
  followed by \<open>token_1\<close> to \<open>token_K\<close>, where \<open>K\<close> is the largest number of tokens
  of a file of the run; and in each row \<open>token_n\<close> is the \<open>n\<close>-th token of the file, or
  \<open>None\<close> when the file has fewer than \<open>n\<close> tokens.
\<close>

theorem token_columns:
  assumes "gather w a = Inr (cols, rows)" and "\<not> use_regex a" and "delimiter a = Some d"
  shows "\<exists>files.
     scan_directory (filesystem w) (input_dir a) (exts a) (\<not> no_recursive a) = Inr files \<and>
     length rows = length files \<and>
     (\<exists>K. cols = base_cols @ map token_col [1..<Suc K] \<and>
        (\<forall>i<length rows. \<exists>tokens.
           split (stem (files ! i)) d = Inr tokens \<and>
           join d tokens = stem (files ! i) \<and>
           length tokens \<le> K \<and>
           (\<forall>n<K. map_of (rows ! i) (token_col (Suc n)) =
              Some (if n < length tokens then PStr (tokens ! n) else PNone))) \<and>
        (\<exists>i<length rows. \<exists>tokens.
           split (stem (files ! i)) d = Inr tokens \<and> length tokens = K))"
proof -
  have cr: "compile_regex w a = Inr None" using assms(2) by (rule compile_regex_none)
  from gather_rows [OF assms(1)] obtain files rx K where
    sc: "scan_directory (filesystem w) (input_dir a) (exts a) (\<not> no_recursive a) = Inr files" and
    rx: "compile_regex w a = Inr rx" and
    cols': "cols = fieldnames a rx K" and len: "length rows = length files" and
    each': "\<forall>i<length rows. \<exists>r n. file_row w a rx (files ! i) 0 = Inr (r, n) \<and> n \<le> K \<and>
      rows ! i = ensure_keys cols r" and
    top': "K = 0 \<or> (\<exists>i<length rows. \<exists>r. file_row w a rx (files ! i) 0 = Inr (r, K))"
    by blast
  from rx cr have none: "rx = None" by simp
  note cols = cols' [unfolded none] and each = each' [unfolded none] and top = top' [unfolded none]
  have ne: "rows \<noteq> []" using assms(1) by (rule gather_nonempty)
  have d: "d \<noteq> []"
  proof
    assume "d = []"
    with assms(2,3) have "file_row w a None (files ! 0) 0 = Inl ValueError"
      by (simp add: file_row_split_empty)
    moreover from ne have "0 < length rows" by simp
    with each obtain r n where "file_row w a None (files ! 0) 0 = Inr (r, n)" by blast
    ultimately show False by simp
  qed
  have sp: "\<And>s. split s d = Inr (split_from d [] s)" using d by (simp add: split_def)
  have c: "cols = base_cols @ map token_col [1..<Suc K]"
    unfolding cols using assms(2,3)
    by (simp add: fieldnames_def extra_cols_def token_cols_def use_split_def)
  have rows: "\<forall>i<length rows. \<exists>tokens. split (stem (files ! i)) d = Inr tokens \<and>
           join d tokens = stem (files ! i) \<and> length tokens \<le> K \<and>
           (\<forall>n<K. map_of (rows ! i) (token_col (Suc n)) =
              Some (if n < length tokens then PStr (tokens ! n) else PNone))"
  proof (intro allI impI)
    fix i assume i: "i < length rows"
    let ?p = "files ! i"
    let ?t = "split_from d [] (stem ?p)"
    from each i obtain r n where
      fr: "file_row w a None ?p 0 = Inr (r, n)" and nK: "n \<le> K" and
      ri: "rows ! i = ensure_keys cols r" by blast
    from file_row_split_mode [OF assms(2,3) d, of w ?p None] fr obtain r0 where
      r0: "base_row w a ?p = Inr r0" and r: "r = set_tokens 1 ?t r0" and n: "n = length ?t"
      by auto
    have "\<forall>m<K. map_of (rows ! i) (token_col (Suc m)) =
              Some (if m < length ?t then PStr (?t ! m) else PNone)"
    proof (intro allI impI)
      fix m assume m: "m < K"
      show "map_of (rows ! i) (token_col (Suc m)) =
              Some (if m < length ?t then PStr (?t ! m) else PNone)"
      proof (cases "m < length ?t")
        case True
        then have "map_of r (token_col (1 + m)) = Some (PStr (?t ! m))"
          unfolding r by (rule map_of_set_tokens_hit)
        with True show ?thesis unfolding ri by (simp add: map_of_ensure_keys)
      next
        case False
        have "map_of r (token_col (Suc m)) = map_of r0 (token_col (Suc m))"
          unfolding r
        proof (rule map_of_set_tokens_miss)
          fix k assume "k < length ?t"
          with False have "Suc m \<noteq> 1 + k" by simp
          then show "token_col (Suc m) \<noteq> token_col (1 + k)" using token_col_inj by blast
        qed
        also have "\<dots> = None" using r0 token_col_not_base by (rule base_row_no_key)
        finally have "map_of r (token_col (Suc m)) = None" .
        moreover have "token_col (Suc m) \<in> set cols"
        proof -
          have "Suc m \<in> set [1..<Suc K]" using m by auto
          then have "token_col (Suc m) \<in> set (map token_col [1..<Suc K])"
            by (simp only: set_map image_eqI)
          then show ?thesis unfolding c by simp
        qed
        ultimately show ?thesis using False unfolding ri by (simp add: map_of_ensure_keys)
      qed
    qed
    moreover have "join d ?t = stem ?p" by (simp add: join_split_from)
    moreover have "length ?t \<le> K" using n nK by simp
    ultimately show "\<exists>tokens. split (stem ?p) d = Inr tokens \<and>
           join d tokens = stem ?p \<and> length tokens \<le> K \<and>
           (\<forall>n<K. map_of (rows ! i) (token_col (Suc n)) =
              Some (if n < length tokens then PStr (tokens ! n) else PNone))"
      using sp by blast
  qed
  have "\<exists>i<length rows. \<exists>tokens. split (stem (files ! i)) d = Inr tokens \<and> length tokens = K"
  proof (cases "K = 0")
    case True
    from ne have "0 < length rows" by simp
    with rows obtain tokens where
      t: "split (stem (files ! 0)) d = Inr tokens" and l: "length tokens \<le> K" by blast
    from t sp have "tokens = split_from d [] (stem (files ! 0))" by simp
    then have "tokens \<noteq> []" by (simp add: split_from_nonempty)
    with l True have False by simp
    then show ?thesis ..
  next
    case False
    with top obtain i r where i: "i < length rows" and
      fr: "file_row w a None (files ! i) 0 = Inr (r, K)" by blast
    from file_row_split_mode [OF assms(2,3) d, of w "files ! i" None] fr
    have "K = length (split_from d [] (stem (files ! i)))" by auto
    with sp have "split (stem (files ! i)) d = Inr (split_from d [] (stem (files ! i))) \<and>
        length (split_from d [] (stem (files ! i))) = K" by simp
    with i show ?thesis by blast
  qed
  with sc len c rows show ?thesis by blast
qed

theorem token_columns_witness:
  "gather ex_world ex_args_tokens =
     Inr (base_cols @ [''token_1'', ''token_2'', ''token_3''], ex_rows_tokens) \<and>
   \<not> use_regex ex_args_tokens \<and> delimiter ex_args_tokens = Some ''_'' \<and>
   length ex_rows_tokens = length ex_files \<and>
   (\<exists>K. base_cols @ [''token_1'', ''token_2'', ''token_3''] = base_cols @ map token_col [1..<Suc K] \<and>
      (\<exists>i<length ex_rows_tokens. \<exists>tokens.
         split (stem (ex_files ! i)) ''_'' = Inr tokens \<and> length tokens = K)) \<and>
   split (stem (ex_files ! 0)) ''_'' = Inr [''a'', ''b'', ''c''] \<and>
   split (stem (ex_files ! 1)) ''_'' = Inr [''chat'', ''12''] \<and>
   map_of (ex_rows_tokens ! 1) ''token_1'' = Some (PStr ''chat'') \<and>
   map_of (ex_rows_tokens ! 1) ''token_2'' = Some (PStr ''12'') \<and>
   map_of (ex_rows_tokens ! 1) ''token_3'' = Some PNone"
proof -
  have u: "\<not> use_regex ex_args_tokens" by code_simp
  have d: "delimiter ex_args_tokens = Some ''_''" by code_simp
  from token_columns [OF ex_gather_tokens u d] obtain files where
    t: "scan_directory (filesystem ex_world) (input_dir ex_args_tokens) (exts ex_args_tokens)
          (\<not> no_recursive ex_args_tokens) = Inr files \<and>
     length ex_rows_tokens = length files \<and>
     (\<exists>K. base_cols @ [''token_1'', ''token_2'', ''token_3''] = base_cols @ map token_col [1..<Suc K] \<and>
        (\<forall>i<length ex_rows_tokens. \<exists>tokens.
           split (stem (files ! i)) ''_'' = Inr tokens \<and>
           join ''_'' tokens = stem (files ! i) \<and>
           length tokens \<le> K \<and>
           (\<forall>n<K. map_of (ex_rows_tokens ! i) (token_col (Suc n)) =
              Some (if n < length tokens then PStr (tokens ! n) else PNone))) \<and>
        (\<exists>i<length ex_rows_tokens. \<exists>tokens.
           split (stem (files ! i)) ''_'' = Inr tokens \<and> length tokens = K))" ..
  from t have "scan_directory (filesystem ex_world) (input_dir ex_args_tokens) (exts ex_args_tokens)
          (\<not> no_recursive ex_args_tokens) = Inr files" by (rule conjunct1)
  with ex_scan_tokens have fe: "files = ex_files" by simp
  from t have l: "length ex_rows_tokens = length ex_files"
    unfolding fe by (rule conjunct2 [THEN conjunct1])
  from t [unfolded fe, THEN conjunct2, THEN conjunct2] obtain K where
    kk: "base_cols @ [''token_1'', ''token_2'', ''token_3''] = base_cols @ map token_col [1..<Suc K] \<and>
        (\<forall>i<length ex_rows_tokens.
            \<exists>tokens.
               split (stem (ex_files ! i)) ''_'' = Inr tokens \<and>
               join ''_'' tokens = stem (ex_files ! i) \<and>
               length tokens \<le> K \<and>
               (\<forall>n<K. map_of (ex_rows_tokens ! i) (token_col (Suc n)) =
                      Some (if n < length tokens then PStr (tokens ! n) else PNone))) \<and>
        (\<exists>i<length ex_rows_tokens.
            \<exists>tokens. split (stem (ex_files ! i)) ''_'' = Inr tokens \<and> length tokens = K)" ..
  from kk have "base_cols @ [''token_1'', ''token_2'', ''token_3''] = base_cols @ map token_col [1..<Suc K] \<and>
      (\<exists>i<length ex_rows_tokens. \<exists>tokens.
         split (stem (ex_files ! i)) ''_'' = Inr tokens \<and> length tokens = K)"
    by (intro conjI) (erule conjunct1, erule conjunct2 [THEN conjunct2])
  then have k: "\<exists>K. base_cols @ [''token_1'', ''token_2'', ''token_3''] = base_cols @ map token_col [1..<Suc K] \<and>
      (\<exists>i<length ex_rows_tokens. \<exists>tokens.
         split (stem (ex_files ! i)) ''_'' = Inr tokens \<and> length tokens = K)" ..
  have s0: "split (stem (ex_files ! 0)) ''_'' = Inr [''a'', ''b'', ''c'']" by code_simp
  have s1: "split (stem (ex_files ! 1)) ''_'' = Inr [''chat'', ''12'']" by code_simp
  have m1: "map_of (ex_rows_tokens ! 1) ''token_1'' = Some (PStr ''chat'')" by code_simp
  have m2: "map_of (ex_rows_tokens ! 1) ''token_2'' = Some (PStr ''12'')" by code_simp
  have m3: "map_of (ex_rows_tokens ! 1) ''token_3'' = Some PNone" by code_simp
  show ?thesis by (intro conjI) (fact | rule ex_gather_tokens)+
qed

text \<open>
  C7. Let the filter hold at least one entry, and let the traversal list entries that
  \<open>stat\<close> is not refused on. Then the scan returns, and a listed entry is among the
  files it returns exactly when it is a regular file and its suffix equals, both in
  lower case, some entry of the filter with its leading dot: the entry itself when it
  begins with a dot, the entry behind a dot when it does not. The filters \<open>wav\<close>,
  \<open>.WAV\<close> and \<open>.wav\<close> all keep \<open>chat_12.WAV\<close> and \<open>a_b_c.wav\<close> and drop
  \<open>007.mp3\<close>. Lower case is that of \<open>str.lower\<close>, accented letters included.
\<close>

theorem extension_filter:
  assumes "es \<noteq> []"
    and "(if recursive then rglob fs base else iterdir fs base) = Inr it"
    and "\<forall>p \<in> set it. examinable fs p"
  shows "\<exists>files. scan_directory fs base (Some es) recursive = Inr files \<and>
     (\<forall>p. p \<in> set files \<longleftrightarrow>
        p \<in> set it \<and> regular_file fs p \<and>
        (\<exists>e \<in> set es. lower (suffix p) = lower (with_dot e)))"
proof -
  let ?keep = "\<lambda>p. regular_file fs p \<and> keeps (normalize_exts (Some es)) p"
  have sel: "select_files fs (normalize_exts (Some es)) it = Inr (filter ?keep it)"
    by (rule select_files_examinable) (use assms(3) in simp)
  have sc: "scan_directory fs base (Some es) recursive = Inr (sort (filter ?keep it))"
    unfolding scan_directory_def Let_def assms(2) using sel by simp
  obtain e es' where es: "es = e # es'" using assms(1) by (cases es) auto
  have p: "passes (Some es) p = (\<exists>e \<in> set es. lower (suffix p) = lower (with_dot e))" for p
    unfolding es by simp
  have "\<forall>p. p \<in> set (sort (filter ?keep it)) \<longleftrightarrow>
        p \<in> set it \<and> regular_file fs p \<and>
        (\<exists>e \<in> set es. lower (suffix p) = lower (with_dot e))"
    by (simp add: keeps_passes p)
  with sc show ?thesis by blast
qed

theorem extension_filter_witness:
  "rglob ex_fs [''audio''] =
     Inr [[''audio'', ''chat_12.WAV''], [''audio'', ''a_b_c.wav''], [''audio'', ''link.wav''],
          [''audio'', ''sub''], [''audio'', ''sub'', ''007.mp3''], [''audio'', ''pipe'']] \<and>
   list_all (examinable ex_fs)
     [[''audio'', ''chat_12.WAV''], [''audio'', ''a_b_c.wav''], [''audio'', ''link.wav''],
      [''audio'', ''sub''], [''audio'', ''sub'', ''007.mp3''], [''audio'', ''pipe'']] \<and>
   scan_directory ex_fs [''audio''] (Some [''wav'']) True =
     Inr [[''audio'', ''a_b_c.wav''], [''audio'', ''chat_12.WAV''], [''audio'', ''link.wav'']] \<and>
   scan_directory ex_fs [''audio''] (Some [''.WAV'']) True =
     Inr [[''audio'', ''a_b_c.wav''], [''audio'', ''chat_12.WAV''], [''audio'', ''link.wav'']] \<and>
   scan_directory ex_fs [''audio''] (Some [''.wav'']) True =
     Inr [[''audio'', ''a_b_c.wav''], [''audio'', ''chat_12.WAV''], [''audio'', ''link.wav'']] \<and>
   lower (suffix [''audio'', ''chat_12.WAV'']) = lower (with_dot ''wav'') \<and>
   lower (suffix [''audio'', ''chat_12.WAV'']) = lower (with_dot ''.WAV'') \<and>
   lower (suffix [''audio'', ''a_b_c.wav'']) = lower (with_dot ''wav'') \<and>
   lower (suffix [''audio'', ''a_b_c.wav'']) = lower (with_dot ''.WAV'') \<and>
   lower (with_dot [CHR 0xC9, CHR ''t'', CHR 0xC9]) = [CHR ''.'', CHR 0xE9, CHR ''t'', CHR 0xE9] \<and>
   lower (suffix [''audio'', ''sub'', ''007.mp3'']) \<noteq> lower (with_dot ''wav'') \<and>
   lower (suffix [''audio'', ''sub'', ''007.mp3'']) \<noteq> lower (with_dot ''.WAV'') \<and>
   (\<exists>files. scan_directory ex_fs [''audio''] (Some [''wav'']) True = Inr files \<and>
      [''audio'', ''chat_12.WAV''] \<in> set files \<and> [''audio'', ''a_b_c.wav''] \<in> set files \<and>
      [''audio'', ''sub'', ''007.mp3''] \<notin> set files) \<and>
   (\<exists>files. scan_directory ex_fs [''audio''] (Some [''.WAV'']) True = Inr files \<and>
      [''audio'', ''chat_12.WAV''] \<in> set files \<and> [''audio'', ''a_b_c.wav''] \<in> set files \<and>
      [''audio'', ''sub'', ''007.mp3''] \<notin> set files)"
proof -
  let ?deep = "[[''audio'', ''chat_12.WAV''], [''audio'', ''a_b_c.wav''], [''audio'', ''link.wav''],
      [''audio'', ''sub''], [''audio'', ''sub'', ''007.mp3''], [''audio'', ''pipe'']]"
  let ?upper = "[''audio'', ''chat_12.WAV'']"
  let ?lower = "[''audio'', ''a_b_c.wav'']"
  let ?other = "[''audio'', ''sub'', ''007.mp3'']"
  have n1: "[''wav''] \<noteq> ([] :: string list)" and n2: "[''.WAV''] \<noteq> ([] :: string list)"
    by simp_all
  have r: "rglob ex_fs [''audio''] = Inr ?deep" by code_simp
  then have l: "(if True then rglob ex_fs [''audio''] else iterdir ex_fs [''audio'']) = Inr ?deep"
    by simp
  have e: "list_all (examinable ex_fs) ?deep" by code_simp
  then have ex: "\<forall>p \<in> set ?deep. examinable ex_fs p" by (simp only: list_all_iff)
  have in1: "?upper \<in> set ?deep" and in2: "?lower \<in> set ?deep" by simp_all
  have f1: "regular_file ex_fs ?upper" by code_simp
  have f2: "regular_file ex_fs ?lower" by code_simp
  have a1: "lower (suffix ?upper) = lower (with_dot ''wav'')" by code_simp
  have a2: "lower (suffix ?upper) = lower (with_dot ''.WAV'')" by code_simp
  have b1: "lower (suffix ?lower) = lower (with_dot ''wav'')" by code_simp
  have b2: "lower (suffix ?lower) = lower (with_dot ''.WAV'')" by code_simp
  have la: "lower (with_dot [CHR 0xC9, CHR ''t'', CHR 0xC9]) = [CHR ''.'', CHR 0xE9, CHR ''t'', CHR 0xE9]"
    by code_simp
  have c1: "lower (suffix ?other) \<noteq> lower (with_dot ''wav'')" by code_simp
  have c2: "lower (suffix ?other) \<noteq> lower (with_dot ''.WAV'')" by code_simp
  have s1: "scan_directory ex_fs [''audio''] (Some [''wav'']) True =
     Inr [[''audio'', ''a_b_c.wav''], [''audio'', ''chat_12.WAV''], [''audio'', ''link.wav'']]"
    by code_simp
  have s2: "scan_directory ex_fs [''audio''] (Some [''.WAV'']) True =
     Inr [[''audio'', ''a_b_c.wav''], [''audio'', ''chat_12.WAV''], [''audio'', ''link.wav'']]"
    by code_simp
  have s3: "scan_directory ex_fs [''audio''] (Some [''.wav'']) True =
     Inr [[''audio'', ''a_b_c.wav''], [''audio'', ''chat_12.WAV''], [''audio'', ''link.wav'']]"
    by code_simp
  from extension_filter [OF n1 l ex] obtain files where
    sc: "scan_directory ex_fs [''audio''] (Some [''wav'']) True = Inr files" and
    m: "\<And>p. p \<in> set files \<longleftrightarrow>
        p \<in> set ?deep \<and> regular_file ex_fs p \<and>
        (\<exists>e \<in> set [''wav'']. lower (suffix p) = lower (with_dot e))" by blast
  have "?upper \<in> set files" unfolding m using in1 f1 a1 by simp
  moreover have "?lower \<in> set files" unfolding m using in2 f2 b1 by simp
  moreover have "?other \<notin> set files" unfolding m using c1 by simp
  ultimately have w1: "\<exists>files. scan_directory ex_fs [''audio''] (Some [''wav'']) True = Inr files \<and>
      ?upper \<in> set files \<and> ?lower \<in> set files \<and> ?other \<notin> set files"
    using sc by blast
  from extension_filter [OF n2 l ex] obtain files' where
    sc': "scan_directory ex_fs [''audio''] (Some [''.WAV'']) True = Inr files'" and
    m': "\<And>p. p \<in> set files' \<longleftrightarrow>
        p \<in> set ?deep \<and> regular_file ex_fs p \<and>
        (\<exists>e \<in> set [''.WAV'']. lower (suffix p) = lower (with_dot e))" by blast
  have "?upper \<in> set files'" unfolding m' using in1 f1 a2 by simp
  moreover have "?lower \<in> set files'" unfolding m' using in2 f2 b2 by simp
  moreover have "?other \<notin> set files'" unfolding m' using c2 by simp
  ultimately have w2: "\<exists>files. scan_directory ex_fs [''audio''] (Some [''.WAV'']) True = Inr files \<and>
      ?upper \<in> set files \<and> ?lower \<in> set files \<and> ?other \<notin> set files"
    using sc' by blast
  show ?thesis by (intro conjI) fact+
qed




text \<open>
  C9. With no regex and the empty string as delimiter, a run over a valid directory with
  at least one scanned file ends in the \<open>ValueError\<close> of \<open>str.split\<close>, which nothing
  catches: status 1, the traceback as only output, no CSV file and no message of the
  program's own.
\<close>

theorem empty_delimiter_uncaught:
  assumes "exists_path (filesystem w) (input_dir a) = Inr True"
    and "is_dir (filesystem w) (input_dir a) = Inr True"
    and "scan_directory (filesystem w) (input_dir a) (exts a) (\<not> no_recursive a) = Inr files"
    and "files \<noteq> []"
    and "\<not> use_regex a" and "delimiter a = Some []"
  shows "main w a =
     \<lparr>status = 1, stdout = [], stderr = [Traceback ValueError], written = NotWritten\<rparr>"
  using gather_empty_delimiter [OF bad_input_dir_valid [OF assms(1,2)] assms(3-6)]
  by (simp add: main_def fatal_def)

theorem empty_delimiter_uncaught_witness:
  "exists_path (filesystem ex_world) (input_dir (ex_args\<lparr>delimiter := Some []\<rparr>)) = Inr True \<and>
   is_dir (filesystem ex_world) (input_dir (ex_args\<lparr>delimiter := Some []\<rparr>)) = Inr True \<and>
   scan_directory (filesystem ex_world) (input_dir (ex_args\<lparr>delimiter := Some []\<rparr>))
     (exts (ex_args\<lparr>delimiter := Some []\<rparr>)) (\<not> no_recursive (ex_args\<lparr>delimiter := Some []\<rparr>)) =
     Inr [[''audio'', ''a_b_c.wav''], [''audio'', ''chat_12.WAV''], [''audio'', ''link.wav''],
          [''audio'', ''sub'', ''007.mp3'']] \<and>
   \<not> use_regex (ex_args\<lparr>delimiter := Some []\<rparr>) \<and>
   delimiter (ex_args\<lparr>delimiter := Some []\<rparr>) = Some [] \<and>
   main ex_world (ex_args\<lparr>delimiter := Some []\<rparr>) =
     \<lparr>status = 1, stdout = [], stderr = [Traceback ValueError], written = NotWritten\<rparr>"
proof -
  let ?a = "ex_args\<lparr>delimiter := Some []\<rparr>"
  have h1: "exists_path (filesystem ex_world) (input_dir ?a) = Inr True" by code_simp
  have h2: "is_dir (filesystem ex_world) (input_dir ?a) = Inr True" by code_simp
  have h3: "scan_directory (filesystem ex_world) (input_dir ?a) (exts ?a) (\<not> no_recursive ?a) =
     Inr [[''audio'', ''a_b_c.wav''], [''audio'', ''chat_12.WAV''], [''audio'', ''link.wav''],
          [''audio'', ''sub'', ''007.mp3'']]" by code_simp
  have h3': "[[''audio'', ''a_b_c.wav''], [''audio'', ''chat_12.WAV''], [''audio'', ''link.wav''],
          [''audio'', ''sub'', ''007.mp3'']] \<noteq> ([] :: path list)" by simp
  have h4: "\<not> use_regex ?a" by code_simp
  have h5: "delimiter ?a = Some []" by code_simp
  from empty_delimiter_uncaught [OF h1 h2 h3 h3' h4 h5] h1 h2 h3 h4 h5 show ?thesis by blast
qed

text \<open>
  C10. When a group of the pattern has the name of a fixed column, then for every file
  whose stem matches, the row's entry under that name is what the group captured; the
  name stands twice in the header, once among the six fixed columns and once among the
  group columns; and both cells of the file's line hold the captured text.
\<close>

theorem group_named_like_base_column:
  assumes "gather w a = Inr (cols, rows)" and "compile_regex w a = Inr (Some re)"
    and "distinct (groupindex re)" and "g \<in> set (groupindex re)" and "g \<in> set base_cols"
    and "i < length rows"
    and "scan_directory (filesystem w) (input_dir a) (exts a) (\<not> no_recursive a) = Inr files"
    and "rmatch re (stem (files ! i)) = Some m"
  shows "map_of (rows ! i) g = Some (of_capture (m g)) \<and>
     count_list cols g = 2 \<and> g \<in> set (take 6 cols) \<and> g \<in> set (drop 6 cols) \<and>
     (open_write w (output_path a) = WriteSucceeds \<longrightarrow>
        (\<exists>tbl. written (main w a) = Complete tbl \<and> tbl ! 0 = cols \<and>
           (\<forall>j<length cols. cols ! j = g \<longrightarrow> tbl ! Suc i ! j = csv_field w (of_capture (m g)))))"
proof -
  have u: "use_regex a" using assms(2) by (rule compile_regex_some)
  from gather_rows [OF assms(1)] obtain files' rx K where
    sc: "scan_directory (filesystem w) (input_dir a) (exts a) (\<not> no_recursive a) = Inr files'" and
    rx: "compile_regex w a = Inr rx" and
    cols': "cols = fieldnames a rx K" and
    each': "\<forall>i<length rows. \<exists>r n. file_row w a rx (files' ! i) 0 = Inr (r, n) \<and> n \<le> K \<and>
      rows ! i = ensure_keys cols r"
    by blast
  from sc assms(7) have same: "files' = files" by simp
  from rx assms(2) have some: "rx = Some re" by simp
  note cols = cols' [unfolded some] and each = each' [unfolded some same]
  have c: "cols = base_cols @ groupindex re"
    unfolding cols using u by (simp add: fieldnames_def extra_cols_def token_cols_def use_split_def)
  from each assms(6) obtain r n where
    fr: "file_row w a (Some re) (files ! i) 0 = Inr (r, n)" and ri: "rows ! i = ensure_keys cols r"
    by blast
  from file_row_regex_mode [OF u, of w "files ! i" re] fr assms(8) obtain r0 where
    r: "r = fold (\<lambda>kv. AList.update (fst kv) (snd kv)) (groupdict re m) r0" by auto
  have "map_of r g = Some (of_capture (m g))"
    using assms(4) unfolding r groupdict_def by (simp add: map_of_fold_update)
  then have v: "map_of (rows ! i) g = Some (of_capture (m g))"
    unfolding ri by (simp add: map_of_ensure_keys)
  have db: "distinct base_cols" by (simp add: base_cols_def)
  have lb: "length base_cols = 6" by (simp add: base_cols_def)
  have cnt: "count_list cols g = 2"
    unfolding c using count_list_distinct [OF db assms(5)] count_list_distinct [OF assms(3,4)]
    by simp
  have t: "g \<in> set (take 6 cols)" and dr: "g \<in> set (drop 6 cols)"
    unfolding c using assms(4,5) lb by simp_all
  have "open_write w (output_path a) = WriteSucceeds \<longrightarrow>
        (\<exists>tbl. written (main w a) = Complete tbl \<and> tbl ! 0 = cols \<and>
           (\<forall>j<length cols. cols ! j = g \<longrightarrow> tbl ! Suc i ! j = csv_field w (of_capture (m g))))"
  proof
    assume o: "open_write w (output_path a) = WriteSucceeds"
    let ?tbl = "cols # map (\<lambda>r. map (\<lambda>c. csv_field w (cell r c)) cols) rows"
    have "written (main w a) = Complete ?tbl" using main_written [OF assms(1) o] by simp
    moreover have "?tbl ! 0 = cols" by simp
    moreover have "\<forall>j<length cols. cols ! j = g \<longrightarrow> ?tbl ! Suc i ! j = csv_field w (of_capture (m g))"
      using assms(6) v by (simp add: cell_def)
    ultimately show "\<exists>tbl. written (main w a) = Complete tbl \<and> tbl ! 0 = cols \<and>
           (\<forall>j<length cols. cols ! j = g \<longrightarrow> tbl ! Suc i ! j = csv_field w (of_capture (m g)))"
      by blast
  qed
  with v cnt t dr show ?thesis by blast
qed

theorem group_named_like_base_column_witness:
  "gather ex_world ex_args_collide = Inr (base_cols @ [''filename''], ex_rows_collide) \<and>
   compile_regex ex_world ex_args_collide = Inr (Some filename_rx) \<and>
   distinct (groupindex filename_rx) \<and>
   ''filename'' \<in> set (groupindex filename_rx) \<and> ''filename'' \<in> set base_cols \<and>
   scan_directory (filesystem ex_world) (input_dir ex_args_collide) (exts ex_args_collide)
     (\<not> no_recursive ex_args_collide) = Inr ex_files \<and>
   stem (ex_files ! 1) = ''chat_12'' \<and>
   rmatch filename_rx ''chat_12'' = Some (\<lambda>g. if g = ''filename'' then Some ''chat'' else None) \<and>
   map_of (ex_rows_collide ! 1) ''filename'' = Some (PStr ''chat'') \<and>
   count_list (base_cols @ [''filename'']) ''filename'' = 2 \<and>
   (\<exists>tbl. written (main ex_world ex_args_collide) = Complete tbl \<and>
      tbl ! 0 = base_cols @ [''filename''] \<and> tbl ! 2 ! 1 = ''chat'' \<and> tbl ! 2 ! 6 = ''chat'')"
proof -
  let ?m = "\<lambda>g. if g = ''filename'' then Some ''chat'' else None"
  let ?cols = "base_cols @ [''filename'']"
  have gi: "groupindex filename_rx = [''filename'']" by (simp add: filename_rx_def)
  have h3: "distinct (groupindex filename_rx)" by (simp add: gi)
  have h4: "''filename'' \<in> set (groupindex filename_rx)" by (simp add: gi)
  have h5: "''filename'' \<in> set base_cols" by (simp add: base_cols_def)
  have h6: "1 < length ex_rows_collide" by (simp add: ex_rows_collide_def)
  have h7: "rmatch filename_rx (stem (ex_files ! 1)) = Some ?m"
    unfolding ex_stems by (rule ex_match_collide)
  have o: "open_write ex_world (output_path ex_args_collide) = WriteSucceeds" by code_simp
  note t = group_named_like_base_column [OF ex_gather_collide ex_compile_collide h3 h4 h5 h6 ex_scan_collide h7]
  from t have v: "map_of (ex_rows_collide ! 1) ''filename'' = Some (of_capture (?m ''filename''))"
    by (rule conjunct1)
  then have v': "map_of (ex_rows_collide ! 1) ''filename'' = Some (PStr ''chat'')"
    by (simp add: of_capture_def)
  from t have c: "count_list ?cols ''filename'' = 2" by (rule conjunct2 [THEN conjunct1])
  from t have "open_write ex_world (output_path ex_args_collide) = WriteSucceeds \<longrightarrow>
        (\<exists>tbl. written (main ex_world ex_args_collide) = Complete tbl \<and> tbl ! 0 = ?cols \<and>
           (\<forall>j<length ?cols. ?cols ! j = ''filename'' \<longrightarrow>
              tbl ! Suc 1 ! j = csv_field ex_world (of_capture (?m ''filename''))))"
    by (rule conjunct2 [THEN conjunct2, THEN conjunct2, THEN conjunct2])
  with o obtain tbl where
    w: "written (main ex_world ex_args_collide) = Complete tbl" and h: "tbl ! 0 = ?cols" and
    cells: "\<forall>j<length ?cols. ?cols ! j = ''filename'' \<longrightarrow>
       tbl ! Suc 1 ! j = csv_field ex_world (of_capture (?m ''filename''))"
    by blast
  have f: "csv_field ex_world (of_capture (?m ''filename'')) = ''chat''"
    by (simp add: of_capture_def csv_field_def)
  have "1 < length ?cols \<and> ?cols ! 1 = ''filename''" by (simp add: base_cols_def)
  with cells f have c1: "tbl ! 2 ! 1 = ''chat''" by (simp add: numeral_2_eq_2)
  have "6 < length ?cols \<and> ?cols ! 6 = ''filename''" by (simp add: base_cols_def)
  with cells f have c6: "tbl ! 2 ! 6 = ''chat''" by (simp add: numeral_2_eq_2)
  from w h c1 c6 have e: "\<exists>tbl. written (main ex_world ex_args_collide) = Complete tbl \<and>
      tbl ! 0 = ?cols \<and> tbl ! 2 ! 1 = ''chat'' \<and> tbl ! 2 ! 6 = ''chat''" by blast
  show ?thesis
    by (intro conjI)
       (fact | rule ex_gather_collide | rule ex_compile_collide | rule ex_scan_collide |
        rule ex_stems | rule ex_match_collide)+
qed

end